theory Spec2Isabelle
  imports Complex_Main "HOL-Library.Sublist" "HOL-Library.Char_ord" "HOL-Library.List_Lexorder"
begin

section \<open>Python primitives used by the log handlers\<close>

text \<open>
  A Python \<^verbatim>\<open>str\<close> is modelled as a \<^typ>\<open>string\<close>; one \<^typ>\<open>char\<close> stands for one
  code point below 256. Exceptions are values of \<open>py_error\<close>: \<^verbatim>\<open>tmp_str_arr[1]\<close> on a
  list that is too short raises \<^verbatim>\<open>IndexError\<close>, and the vectorizer raises
  \<^verbatim>\<open>ValueError\<close> on an empty vocabulary.
\<close>

datatype py_error = IndexError | ValueError

definition dquote :: char where
  "dquote = CHR 0x22"

definition newline :: char where
  "newline = CHR 0x0A"

text \<open>
  \<^verbatim>\<open>s.split(sep)\<close> for a non-empty separator: the string is scanned from the left, every
  non-overlapping occurrence of \<open>sep\<close> closes the current part, and the text after the last
  occurrence is the last part. \<open>cur\<close> is the part being collected. Both separators of the
  source are non-empty literals.
\<close>

function split_from :: "string \<Rightarrow> string \<Rightarrow> string \<Rightarrow> string list" where
  "split_from sep cur [] = [cur]"
| "split_from sep cur (c # cs) =
     (if prefix sep (c # cs) then cur # split_from sep [] (drop (length sep - 1) cs)
      else split_from sep (cur @ [c]) cs)"
  by pat_completeness auto
termination
  by (relation "measure (\<lambda>(sep, cur, s). length s)") auto

definition split :: "string \<Rightarrow> string \<Rightarrow> string list" where
  "split s sep = split_from sep [] s"

text \<open>\<^verbatim>\<open>sep.join(parts)\<close>.\<close>

fun join :: "string \<Rightarrow> string list \<Rightarrow> string" where
  "join sep [] = []"
| "join sep [x] = x"
| "join sep (x # y # ys) = x @ sep @ join sep (y # ys)"

text \<open>\<^verbatim>\<open>s.replace(c, '')\<close> for a one-character \<open>c\<close>: every occurrence is removed.\<close>

definition replace_char :: "string \<Rightarrow> char \<Rightarrow> string" where
  "replace_char s c = filter (\<lambda>x. x \<noteq> c) s"

text \<open>\<^verbatim>\<open>xs[i]\<close> for a non-negative literal index.\<close>

definition getitem :: "'a list \<Rightarrow> nat \<Rightarrow> py_error + 'a" where
  "getitem xs i = (if i < length xs then Inr (xs ! i) else Inl IndexError)"

section \<open>The log handlers\<close>

datatype log_handler = ApacheErrorLogHandler | ApacheAccessLogHandler

fun get_log_file_prefixes :: "log_handler \<Rightarrow> string list" where
  "get_log_file_prefixes ApacheErrorLogHandler = [''error_log'', ''ssl_error_log'']"
| "get_log_file_prefixes ApacheAccessLogHandler = [''access_log'', ''ssl_access_log'']"

text \<open>
  The body of the \<^verbatim>\<open>for line in lines\<close> loop of
  \<^verbatim>\<open>ApacheErrorLogHandler.parse_log_file\<close>, with \<open>log_record_list\<close> passed through.
\<close>

definition error_line :: "string list \<Rightarrow> string \<Rightarrow> string list" where
  "error_line log_record_list line =
     (let tmp_str_arr = split line ''] ''
      in if length tmp_str_arr > 2
         then log_record_list @ [join '' '' (drop 2 tmp_str_arr)]
         else log_record_list)"

fun error_loop :: "string list \<Rightarrow> string list \<Rightarrow> string list" where
  "error_loop log_record_list [] = log_record_list"
| "error_loop log_record_list (line # lines) =
     error_loop (error_line log_record_list line) lines"

text \<open>
  The body of the loop of \<^verbatim>\<open>ApacheAccessLogHandler.parse_log_file\<close>. The two reads at
  index 1 raise \<^verbatim>\<open>IndexError\<close> when the split gave a single part; nothing in the
  function catches it, so the loop stops there and no list is returned.
\<close>

definition access_record :: "string \<Rightarrow> py_error + string" where
  "access_record line =
     (let tmp_str_arr = split line '' - - [''
      in case getitem tmp_str_arr 0 of
           Inl e \<Rightarrow> Inl e
         | Inr client_ip \<Rightarrow>
             (case getitem tmp_str_arr 1 of
                Inl e \<Rightarrow> Inl e
              | Inr rest \<Rightarrow>
                  (case getitem (split rest (''] '' @ [dquote])) 1 of
                     Inl e \<Rightarrow> Inl e
                   | Inr rest_of_rec \<Rightarrow>
                       Inr (client_ip @ '' '' @
                            replace_char (replace_char rest_of_rec dquote) CHR ''-''))))"

fun access_loop :: "string list \<Rightarrow> string list \<Rightarrow> py_error + string list" where
  "access_loop log_record_list [] = Inr log_record_list"
| "access_loop log_record_list (line # lines) =
     (case access_record line of
        Inl e \<Rightarrow> Inl e
      | Inr log_record \<Rightarrow> access_loop (log_record_list @ [log_record]) lines)"

text \<open>
  \<^verbatim>\<open>parse_log_file\<close> of the handler interface, on the list that
  \<^verbatim>\<open>file_to_read.readlines()\<close> returned (each line still carries its terminator).
\<close>

fun parse_log_file :: "log_handler \<Rightarrow> string list \<Rightarrow> py_error + string list" where
  "parse_log_file ApacheErrorLogHandler lines = Inr (error_loop [] lines)"
| "parse_log_file ApacheAccessLogHandler lines = access_loop [] lines"

section \<open>The scorer: \<^verbatim>\<open>get_top_ngrams\<close>\<close>

text \<open>
  \<^verbatim>\<open>get_top_ngrams\<close> builds
  \<^verbatim>\<open>TfidfVectorizer(ngram_range=(n, n), lowercase=False, token_pattern=r'\S+', smooth_idf=False)\<close>
  and calls \<^verbatim>\<open>fit_transform\<close>. The definitions of this section follow what scikit-learn
  does under exactly these arguments, every other argument at its default:
  \<^verbatim>\<open>analyzer='word'\<close>, \<^verbatim>\<open>stop_words=None\<close>, \<^verbatim>\<open>min_df=1\<close>, \<^verbatim>\<open>max_df=1.0\<close>,
  \<^verbatim>\<open>max_features=None\<close>, \<^verbatim>\<open>binary=False\<close>, \<^verbatim>\<open>use_idf=True\<close>, \<^verbatim>\<open>sublinear_tf=False\<close> and
  \<^verbatim>\<open>norm='l2'\<close>. Weights are real numbers here; the library computes them in 64-bit
  floating point.
\<close>

text \<open>
  The characters that \<^verbatim>\<open>\S\<close> does not match in a \<^verbatim>\<open>str\<close> pattern: the code points below
  256 for which \<^verbatim>\<open>str.isspace\<close> holds.
\<close>

definition isspace :: "char \<Rightarrow> bool" where
  "isspace c =
     (let k = (of_char c :: nat)
      in (9 \<le> k \<and> k \<le> 13) \<or> (28 \<le> k \<and> k \<le> 32) \<or> k = 133 \<or> k = 160)"

text \<open>
  \<^verbatim>\<open>re.compile(r'\S+').findall(doc)\<close>: the maximal runs of non-whitespace characters,
  from left to right. \<open>cur\<close> is the run being collected.
\<close>

fun findall_nonspace :: "string \<Rightarrow> string \<Rightarrow> string list" where
  "findall_nonspace cur [] = (if cur = [] then [] else [cur])"
| "findall_nonspace cur (c # cs) =
     (if isspace c
      then (if cur = [] then findall_nonspace [] cs else cur # findall_nonspace [] cs)
      else findall_nonspace (cur @ [c]) cs)"

definition tokenize :: "string \<Rightarrow> string list" where
  "tokenize doc = findall_nonspace [] doc"

text \<open>
  \<^verbatim>\<open>_word_ngrams\<close> with \<^verbatim>\<open>ngram_range = (n, n)\<close>: for \<open>n = 1\<close> the tokens themselves;
  otherwise, when the document has at least \<open>n\<close> tokens, every window of \<open>n\<close> consecutive
  tokens joined with one space, in order; otherwise nothing.
\<close>

definition word_ngrams :: "nat \<Rightarrow> string list \<Rightarrow> string list" where
  "word_ngrams n tokens =
     (if n = 1 then tokens
      else if n \<le> length tokens
      then map (\<lambda>i. join '' '' (take n (drop i tokens))) [0..<length tokens - n + 1]
      else [])"

definition analyze :: "nat \<Rightarrow> string \<Rightarrow> string list" where
  "analyze n doc = word_ngrams n (tokenize doc)"

text \<open>
  \<^verbatim>\<open>_count_vocab\<close>: the vocabulary is a dictionary that gives every feature, the first time
  it is seen, the next free index. It is modelled by the list of its keys in insertion
  order, which is the order in which \<^verbatim>\<open>vocabulary_.items()\<close> iterates.
\<close>

fun vocabulary_add :: "string list \<Rightarrow> string list \<Rightarrow> string list" where
  "vocabulary_add vocabulary [] = vocabulary"
| "vocabulary_add vocabulary (feature # features) =
     vocabulary_add
       (if feature \<in> set vocabulary then vocabulary else vocabulary @ [feature]) features"

fun count_vocab :: "nat \<Rightarrow> string list \<Rightarrow> string list \<Rightarrow> string list" where
  "count_vocab n vocabulary [] = vocabulary"
| "count_vocab n vocabulary (doc # raw_documents) =
     count_vocab n (vocabulary_add vocabulary (analyze n doc)) raw_documents"

text \<open>
  \<^verbatim>\<open>_sort_features\<close> renumbers the features by their rank in \<^verbatim>\<open>sorted(vocabulary.items())\<close>
  (strings compare lexicographically by code point) and permutes the columns of the count
  matrix accordingly; the dictionary keeps its insertion order. \<open>feature_names\<close> is the
  sorted list, so the column of a term is its position there, and \<open>vocabulary_items\<close> is
  \<^verbatim>\<open>vocabulary_.items()\<close>.
\<close>

definition feature_names :: "nat \<Rightarrow> string list \<Rightarrow> string list" where
  "feature_names n raw_documents = sort (count_vocab n [] raw_documents)"

fun index_of :: "'a list \<Rightarrow> 'a \<Rightarrow> nat" where
  "index_of [] x = 0"
| "index_of (y # ys) x = (if x = y then 0 else Suc (index_of ys x))"

definition vocabulary_items :: "nat \<Rightarrow> string list \<Rightarrow> (string \<times> nat) list" where
  "vocabulary_items n raw_documents =
     map (\<lambda>term. (term, index_of (feature_names n raw_documents) term))
       (count_vocab n [] raw_documents)"

text \<open>The term-document matrix of counts, one row for every document.\<close>

definition count_matrix :: "nat \<Rightarrow> string list \<Rightarrow> real list list" where
  "count_matrix n raw_documents =
     map (\<lambda>doc. map (\<lambda>term. real (count_list (analyze n doc) term))
                  (feature_names n raw_documents))
       raw_documents"

text \<open>
  \<^verbatim>\<open>TfidfTransformer.fit\<close> with \<^verbatim>\<open>smooth_idf=False\<close>: the document frequency of a column
  is the number of rows with an entry in it, and
  \<^verbatim>\<open>idf = np.log(n_samples / df) + 1\<close> (the attribute \<^verbatim>\<open>idf_\<close>).
\<close>

definition document_frequency :: "real list list \<Rightarrow> nat \<Rightarrow> nat" where
  "document_frequency X j = length (filter (\<lambda>row. row ! j \<noteq> 0) X)"

definition idf_vector :: "real list list \<Rightarrow> nat \<Rightarrow> real list" where
  "idf_vector X n_features =
     map (\<lambda>j. ln (real (length X) / real (document_frequency X j)) + 1) [0..<n_features]"

text \<open>
  \<^verbatim>\<open>TfidfTransformer.transform\<close>: every count is multiplied by the idf of its column, then
  \<^verbatim>\<open>normalize(X, norm='l2')\<close> divides every row by its Euclidean norm; a row whose norm is
  zero is left as it is.
\<close>

definition scale_row :: "real list \<Rightarrow> real list \<Rightarrow> real list" where
  "scale_row idf row = map (\<lambda>(x, w). x * w) (zip row idf)"

definition normalize_l2 :: "real list \<Rightarrow> real list" where
  "normalize_l2 row =
     (let s = sum_list (map (\<lambda>x. x * x) row)
      in if s = 0 then row else map (\<lambda>x. x / sqrt s) row)"

text \<open>
  \<^verbatim>\<open>fit_transform\<close>. \<^verbatim>\<open>_count_vocab\<close> raises
  \<^verbatim>\<open>ValueError("empty vocabulary; perhaps the documents only contain stop words")\<close> when no
  document produced a feature.
\<close>

definition fit_transform :: "nat \<Rightarrow> string list \<Rightarrow> py_error + real list list" where
  "fit_transform n raw_documents =
     (if count_vocab n [] raw_documents = [] then Inl ValueError
      else let X = count_matrix n raw_documents;
               idf_diag = idf_vector X (length (feature_names n raw_documents))
           in Inr (map (\<lambda>row. normalize_l2 (scale_row idf_diag row)) X))"

text \<open>
  \<^verbatim>\<open>bag_of_words.sum(axis=0)\<close>: the sum of every column. The sum is exact here; the library
  adds 64-bit floats row by row, so two columns whose exact sums are equal can differ in the
  last bit there and then come out of the sort in the other order.
\<close>

definition sum_axis0 :: "real list list \<Rightarrow> nat \<Rightarrow> real list" where
  "sum_axis0 X n_features = map (\<lambda>j. sum_list (map (\<lambda>row. row ! j) X)) [0..<n_features]"

text \<open>
  \<^verbatim>\<open>sorted(words_freq, key=lambda x: x[1], reverse=True)\<close> is stable: entries of equal weight
  keep the order they had in \<open>words_freq\<close>. Sorting by the negated weight with the stable
  \<^const>\<open>sort_key\<close> is the same order.
\<close>

definition words_freq :: "nat \<Rightarrow> string list \<Rightarrow> real list list \<Rightarrow> (string \<times> real) list" where
  "words_freq n record_list bag_of_words =
     (let sum_words = sum_axis0 bag_of_words (length (feature_names n record_list))
      in map (\<lambda>(word, idx). (word, sum_words ! idx)) (vocabulary_items n record_list))"

definition get_top_ngrams :: "string list \<Rightarrow> nat \<Rightarrow> py_error + (string \<times> real) list" where
  "get_top_ngrams record_list n =
     (case fit_transform n record_list of
        Inl e \<Rightarrow> Inl e
      | Inr bag_of_words \<Rightarrow>
          Inr (take 10 (sort_key (\<lambda>x. - snd x) (words_freq n record_list bag_of_words))))"

section \<open>The scorer as the specification describes it\<close>

text \<open>
  The quantities of the specification, written from its words, to be compared with what
  \<^const>\<open>get_top_ngrams\<close> computes: the term frequency of an n-gram in a document, the number
  of documents that contain it, \<open>IDF(g) = ln(D / df(g)) + 1\<close>, the per-document weight
  \<open>TF(g,d) \<times> IDF(g)\<close> and the sum of these weights over all documents.
\<close>

definition tf :: "nat \<Rightarrow> string \<Rightarrow> string \<Rightarrow> real" where
  "tf n doc g = real (count_list (analyze n doc) g)"

definition df :: "nat \<Rightarrow> string list \<Rightarrow> string \<Rightarrow> nat" where
  "df n docs g = length (filter (\<lambda>doc. g \<in> set (analyze n doc)) docs)"

definition idf :: "nat \<Rightarrow> string list \<Rightarrow> string \<Rightarrow> real" where
  "idf n docs g = ln (real (length docs) / real (df n docs g)) + 1"

definition tfidf :: "nat \<Rightarrow> string list \<Rightarrow> string \<Rightarrow> string \<Rightarrow> real" where
  "tfidf n docs doc g = tf n doc g * idf n docs g"

definition raw_tfidf_sum :: "nat \<Rightarrow> string list \<Rightarrow> string \<Rightarrow> real" where
  "raw_tfidf_sum n docs g = sum_list (map (\<lambda>doc. tfidf n docs doc g) docs)"

text \<open>The Euclidean norm of the weights of one document, over the distinct n-grams of the
  corpus, and the sum of the weights each divided by the norm of its document.\<close>

definition row_norm :: "nat \<Rightarrow> string list \<Rightarrow> string \<Rightarrow> real" where
  "row_norm n docs doc =
     sqrt (sum_list (map (\<lambda>g. (tfidf n docs doc g)\<^sup>2) (feature_names n docs)))"

definition normalized_tfidf_sum :: "nat \<Rightarrow> string list \<Rightarrow> string \<Rightarrow> real" where
  "normalized_tfidf_sum n docs g =
     sum_list (map (\<lambda>doc. if row_norm n docs doc = 0 then tfidf n docs doc g
                           else tfidf n docs doc g / row_norm n docs doc) docs)"


section \<open>Properties of the string primitives\<close>

lemma split_from_nonempty: "split_from sep cur s \<noteq> []"
  by (induction sep cur s rule: split_from.induct) auto

lemma join_Cons: "ps \<noteq> [] \<Longrightarrow> join sep (p # ps) = p @ sep @ join sep ps"
  by (cases ps) auto

lemma prefix_drop_eq:
  "prefix sep (c # cs) \<Longrightarrow> sep \<noteq> [] \<Longrightarrow> c # cs = sep @ drop (length sep - 1) cs"
  by (cases sep) (auto simp: prefix_def)

text \<open>Joining the parts with the separator gives the string back.\<close>

lemma join_split_from: "sep \<noteq> [] \<Longrightarrow> join sep (split_from sep cur s) = cur @ s"
proof (induction sep cur s rule: split_from.induct)
  case (1 sep cur)
  then show ?case by simp
next
  case (2 sep cur c cs)
  show ?case
  proof (cases "prefix sep (c # cs)")
    case True
    then have "join sep (split_from sep cur (c # cs)) =
        cur @ sep @ join sep (split_from sep [] (drop (length sep - 1) cs))"
      by (simp add: join_Cons split_from_nonempty)
    also have "\<dots> = cur @ sep @ drop (length sep - 1) cs"
      using 2 True by simp
    finally show ?thesis using prefix_drop_eq[OF True 2(3)] by simp
  next
    case False
    then show ?thesis using 2 by simp
  qed
qed

lemma split_from_hd:
  assumes "sep \<noteq> []" and "split_from sep cur s = p # q # ps"
  shows "prefix (p @ sep) (cur @ s)"
proof -
  have "cur @ s = (p @ sep) @ join sep (q # ps)"
    using join_split_from[OF assms(1), of cur s] assms(2) by simp
  then show ?thesis unfolding prefix_def by blast
qed

text \<open>The last part is the end of the string: it keeps a last character that the
  separator does not contain.\<close>

lemma split_from_last:
  "sep \<noteq> [] \<Longrightarrow> s \<noteq> [] \<Longrightarrow> last s \<notin> set sep \<Longrightarrow>
   last (split_from sep cur s) \<noteq> [] \<and> last (last (split_from sep cur s)) = last s"
proof (induction sep cur s rule: split_from.induct)
  case (1 sep cur)
  then show ?case by simp
next
  case (2 sep cur c cs)
  show ?case
  proof (cases "prefix sep (c # cs)")
    case True
    note pre = True
    show ?thesis
    proof -
      have sne: "sep \<noteq> []" using 2 by simp
      let ?r = "drop (length sep - 1) cs"
      have eq: "c # cs = sep @ ?r" using prefix_drop_eq[OF pre sne] .
      have rne: "?r \<noteq> []"
      proof
        assume "?r = []"
        then have "c # cs = sep" using eq by simp
        then have "last (c # cs) \<in> set sep" using sne by (metis last_in_set)
        then show False using 2(5) by simp
      qed
      then have lr: "last ?r = last (c # cs)" using eq by (metis last_appendR)
      have "last (split_from sep [] ?r) \<noteq> [] \<and> last (last (split_from sep [] ?r)) = last ?r"
        using 2(1)[OF pre sne rne] lr 2(5) by simp
      then show ?thesis using pre lr by (simp add: split_from_nonempty)
    qed
  next
    case False
    show ?thesis
    proof (cases cs)
      case Nil
      then show ?thesis using False by simp
    next
      case (Cons d ds)
      then show ?thesis using False 2(2)[OF False] 2(3) 2(5) by simp
    qed
  qed
qed

lemma join_last:
  "ps \<noteq> [] \<Longrightarrow> last ps \<noteq> [] \<Longrightarrow> join sep ps \<noteq> [] \<and> last (join sep ps) = last (last ps)"
  by (induction sep ps rule: join.induct) auto

text \<open>A split gives a single part exactly when the separator does not occur.\<close>

lemma split_from_single_iff:
  "sep \<noteq> [] \<Longrightarrow> (length (split_from sep cur s) = 1) = (\<not> (\<exists>a b. s = a @ sep @ b))"
proof (induction sep cur s rule: split_from.induct)
  case (1 sep cur)
  then show ?case by simp
next
  case (2 sep cur c cs)
  show ?case
  proof (cases "prefix sep (c # cs)")
    case True
    then have "\<exists>a b. c # cs = a @ sep @ b" by (metis append_Nil prefix_def)
    then show ?thesis using True by (simp add: split_from_nonempty)
  next
    case False
    have "(\<exists>a b. c # cs = a @ sep @ b) = (\<exists>a b. cs = a @ sep @ b)"
    proof
      assume "\<exists>a b. c # cs = a @ sep @ b"
      then obtain a b where ab: "c # cs = a @ sep @ b" by blast
      show "\<exists>a b. cs = a @ sep @ b"
      proof (cases a)
        case Nil
        then have "prefix sep (c # cs)" using ab by (simp add: prefix_def)
        then show ?thesis using False by simp
      next
        case (Cons x xs)
        then show ?thesis using ab by auto
      qed
    next
      assume "\<exists>a b. cs = a @ sep @ b"
      then obtain a b where "cs = a @ sep @ b" by blast
      then have "c # cs = (c # a) @ sep @ b" by simp
      then show "\<exists>a b. c # cs = a @ sep @ b" by blast
    qed
    then show ?thesis using False 2 by simp
  qed
qed

lemma split_single_iff:
  assumes "sep \<noteq> []"
  shows "(length (split s sep) < 2) = (\<not> (\<exists>a b. s = a @ sep @ b))"
proof -
  have "length (split s sep) \<noteq> 0" by (simp add: split_def split_from_nonempty)
  then have "(length (split s sep) < 2) = (length (split s sep) = 1)" by arith
  then show ?thesis using split_from_single_iff[OF assms, of "[]" s] by (simp add: split_def)
qed

lemma last_filter_keep:
  "xs \<noteq> [] \<Longrightarrow> P (last xs) \<Longrightarrow> filter P xs \<noteq> [] \<and> last (filter P xs) = last xs"
  by (induction xs rule: rev_induct) auto

section \<open>Properties of the log handlers\<close>

lemma error_loop_append: "error_loop acc lines = acc @ error_loop [] lines"
proof (induction lines arbitrary: acc)
  case Nil
  then show ?case by simp
next
  case (Cons l ls)
  have "error_loop acc (l # ls) = error_line acc l @ error_loop [] ls"
    using Cons.IH[of "error_line acc l"] by simp
  moreover have "error_loop [] (l # ls) = error_line [] l @ error_loop [] ls"
    using Cons.IH[of "error_line [] l"] by simp
  moreover have "error_line acc l = acc @ error_line [] l"
    by (simp add: error_line_def Let_def)
  ultimately show ?case by simp
qed

lemma error_loop_concat: "error_loop [] lines = concat (map (error_line []) lines)"
proof (induction lines)
  case Nil
  then show ?case by simp
next
  case (Cons l ls)
  then show ?case using error_loop_append[of "error_line [] l" ls] by simp
qed

lemma access_record_error: "access_record l = Inl e \<Longrightarrow> e = IndexError"
  by (auto simp: access_record_def getitem_def Let_def split: if_splits sum.splits)

lemma access_loop_abort:
  "l \<in> set lines \<Longrightarrow> access_record l = Inl IndexError \<Longrightarrow>
   access_loop acc lines = Inl IndexError"
proof (induction lines arbitrary: acc)
  case Nil
  then show ?case by simp
next
  case (Cons x xs)
  show ?case
  proof (cases "access_record x")
    case (Inl e)
    then show ?thesis using access_record_error[OF Inl] by simp
  next
    case (Inr r)
    then have "l \<in> set xs" using Cons.prems by auto
    then show ?thesis using Cons.IH Cons.prems(2) Inr by simp
  qed
qed

lemma access_record_cases:
  "access_record line =
     (let parts = split line '' - - [''
      in if length parts < 2 then Inl IndexError
         else let rest_arr = split (parts ! 1) (''] '' @ [dquote])
              in if length rest_arr < 2 then Inl IndexError
                 else Inr (parts ! 0 @ '' '' @
                           filter (\<lambda>c. c \<noteq> dquote \<and> c \<noteq> CHR ''-'') (rest_arr ! 1)))"
  by (auto simp: access_record_def getitem_def Let_def replace_char_def split_def
        split_from_nonempty conj_commute)

lemma error_line_newline:
  assumes "l \<noteq> []" "last l = newline" "r \<in> set (error_line [] l)"
  shows "r \<noteq> [] \<and> last r = newline"
proof -
  let ?ps = "split l ''] ''"
  have len: "length ?ps > 2" and r: "r = join '' '' (drop 2 ?ps)"
    using assms(3) by (auto simp: error_line_def Let_def split: if_splits)
  have "newline \<notin> set ''] ''" by (simp add: newline_def)
  then have lp: "last ?ps \<noteq> [] \<and> last (last ?ps) = newline"
    using split_from_last[of "''] ''" l "[]"] assms(1,2) by (simp add: split_def)
  have d: "drop 2 ?ps \<noteq> []" using len by simp
  then have "last (drop 2 ?ps) = last ?ps" by simp
  then show ?thesis using join_last[OF d, of "'' ''"] lp r by simp
qed

lemma access_record_newline:
  assumes "l \<noteq> []" "last l = newline"
    and "length (split l '' - - ['') = 2"
    and "length (split (split l '' - - ['' ! 1) (''] '' @ [dquote])) = 2"
  shows "\<exists>r. access_record l = Inr r \<and> r \<noteq> [] \<and> last r = newline"
proof -
  let ?ps = "split l '' - - [''"
  let ?qs = "split (?ps ! 1) (''] '' @ [dquote])"
  have "newline \<notin> set '' - - [''" by (simp add: newline_def)
  then have lp: "last ?ps \<noteq> [] \<and> last (last ?ps) = newline"
    using split_from_last[of "'' - - [''" l "[]"] assms(1,2) by (simp add: split_def)
  have "?ps \<noteq> []" using assms(3) by auto
  then have "last ?ps = ?ps ! 1" using assms(3) by (simp add: last_conv_nth)
  then have p1: "?ps ! 1 \<noteq> [] \<and> last (?ps ! 1) = newline" using lp by simp
  have "newline \<notin> set (''] '' @ [dquote])" by (simp add: newline_def dquote_def)
  then have lq: "last ?qs \<noteq> [] \<and> last (last ?qs) = newline"
    using split_from_last[of "''] '' @ [dquote]" "?ps ! 1" "[]"] p1 by (simp add: split_def)
  have "?qs \<noteq> []" using assms(4) by auto
  then have "last ?qs = ?qs ! 1" using assms(4) by (simp add: last_conv_nth)
  then have q1: "?qs ! 1 \<noteq> [] \<and> last (?qs ! 1) = newline" using lq by simp
  let ?f = "filter (\<lambda>c. c \<noteq> dquote \<and> c \<noteq> CHR ''-'') (?qs ! 1)"
  have keep: "newline \<noteq> dquote \<and> newline \<noteq> CHR ''-''" by (simp add: newline_def dquote_def)
  then have "?f \<noteq> [] \<and> last ?f = newline"
    using q1 last_filter_keep[of "?qs ! 1" "\<lambda>c. c \<noteq> dquote \<and> c \<noteq> CHR ''-''"] by simp
  moreover have "access_record l = Inr (?ps ! 0 @ '' '' @ ?f)"
    using assms(3,4) by (simp add: access_record_cases Let_def)
  ultimately show ?thesis by simp
qed

lemma access_loop_Inr:
  "access_loop acc lines = Inr rs \<Longrightarrow>
   \<exists>rs'. rs = acc @ rs' \<and> list_all2 (\<lambda>l r. access_record l = Inr r) lines rs'"
proof (induction lines arbitrary: acc)
  case Nil
  then show ?case by simp
next
  case (Cons l ls)
  then obtain r where r: "access_record l = Inr r"
    by (cases "access_record l") auto
  then have "access_loop (acc @ [r]) ls = Inr rs" using Cons.prems by simp
  then obtain rs' where "rs = (acc @ [r]) @ rs'"
      "list_all2 (\<lambda>l r. access_record l = Inr r) ls rs'"
    using Cons.IH by blast
  then have "rs = acc @ (r # rs') \<and> list_all2 (\<lambda>l r. access_record l = Inr r) (l # ls) (r # rs')"
    using r by simp
  then show ?case by blast
qed

lemma access_record_Inr:
  assumes "access_record line = Inr record"
  shows "prefix (hd (split line '' - - ['') @ '' - - ['') line
        \<and> record = hd (split line '' - - ['') @ '' '' @
            filter (\<lambda>c. c \<noteq> dquote \<and> c \<noteq> CHR ''-'')
              (split (split line '' - - ['' ! 1) (''] '' @ [dquote]) ! 1)"
proof -
  let ?ps = "split line '' - - [''"
  have len: "\<not> length ?ps < 2"
    using assms by (auto simp: access_record_cases Let_def split: if_splits)
  then obtain p q qs where ps: "?ps = p # q # qs"
    by (cases ?ps; cases "tl ?ps") auto
  then have "prefix (p @ '' - - ['') ([] @ line)"
    using split_from_hd[of "'' - - [''" "[]" line p q qs] by (simp add: split_def)
  then have pre: "prefix (hd ?ps @ '' - - ['') line" using ps by simp
  have "record = hd ?ps @ '' '' @
          filter (\<lambda>c. c \<noteq> dquote \<and> c \<noteq> CHR ''-'')
            (split (?ps ! 1) (''] '' @ [dquote]) ! 1)"
    using assms ps by (auto simp: access_record_cases Let_def split: if_splits)
  then show ?thesis using pre by simp
qed

lemma access_example_record:
  "access_record (''127.0.0.1 - - [01/Jan/2020] '' @ [dquote] @ ''GET /x HTTP/1.1'' @ [dquote]
       @ '' 200 - -'') = Inr ''127.0.0.1 GET /x HTTP/1.1 200  ''"
  by (simp add: access_record_def split_def getitem_def dquote_def replace_char_def)


lemma error_handler_keeps_newline:
  "parse_log_file ApacheErrorLogHandler (before @ [l] @ after) =
     Inr (error_loop [] before @ error_line [] l @ error_loop [] after)
   \<and> (l \<noteq> [] \<and> last l = newline \<longrightarrow>
        (\<forall>r \<in> set (error_line [] l). r \<noteq> [] \<and> last r = newline))"
  using error_line_newline[of l] by (auto simp: error_loop_concat)

section \<open>Claims about the log handlers\<close>

text \<open>
  Claim C5. \<^verbatim>\<open>ApacheErrorLogHandler.parse_log_file\<close> splits every line on \<^verbatim>\<open>"] "\<close>; a line
  with more than two parts gives exactly one record, the parts from index 2 on joined with
  one space, and a line with two parts or fewer gives none. The line
  \<^verbatim>\<open>[Mon Jan 01] [error] real error text\<close> gives the record \<^verbatim>\<open>real error text\<close>.
\<close>

theorem error_log_normalizer:
  "parse_log_file ApacheErrorLogHandler lines =
     Inr (concat (map (\<lambda>line. if length (split line ''] '') > 2
                               then [join '' '' (drop 2 (split line ''] ''))]
                               else []) lines))
   \<and> parse_log_file ApacheErrorLogHandler [''[Mon Jan 01] [error] real error text'']
     = Inr [''real error text'']"
proof
  have "error_line [] = (\<lambda>line. if length (split line ''] '') > 2
                               then [join '' '' (drop 2 (split line ''] ''))]
                               else [])"
    by (rule ext) (simp add: error_line_def Let_def)
  then show "parse_log_file ApacheErrorLogHandler lines =
     Inr (concat (map (\<lambda>line. if length (split line ''] '') > 2
                               then [join '' '' (drop 2 (split line ''] ''))]
                               else []) lines))"
    by (simp add: error_loop_concat)
next
  show "parse_log_file ApacheErrorLogHandler [''[Mon Jan 01] [error] real error text'']
     = Inr [''real error text'']"
    by (simp add: error_line_def split_def)
qed

text \<open>
  Claim C6. \<^verbatim>\<open>ApacheAccessLogHandler.parse_log_file\<close> maps the file whose only line is
  \<^verbatim>\<open>127.0.0.1 - - [01/Jan/2020] "GET /x HTTP/1.1" 200 - -\<close> to the single record
  \<^verbatim>\<open>127.0.0.1 GET /x HTTP/1.1 200\<close> followed by two spaces. Whenever the handler returns
  records, there is one for every line, in order: its client field is the text of the line
  before the first \<^verbatim>\<open> - - [\<close>, the remainder is the part after \<^verbatim>\<open>] "\<close> with every double
  quote and every hyphen removed, and the two are joined by one space. The same holds of the
  loop body \<^const>\<open>access_record\<close> on one line.
\<close>

theorem access_log_normalizer:
  "parse_log_file ApacheAccessLogHandler
     [''127.0.0.1 - - [01/Jan/2020] '' @ [dquote] @ ''GET /x HTTP/1.1'' @ [dquote] @ '' 200 - -'']
     = Inr [''127.0.0.1 GET /x HTTP/1.1 200  '']
   \<and> (parse_log_file ApacheAccessLogHandler lines = Inr records \<longrightarrow>
        records = map (\<lambda>line. hd (split line '' - - ['') @ '' '' @
                    filter (\<lambda>c. c \<noteq> dquote \<and> c \<noteq> CHR ''-'')
                      (split (split line '' - - ['' ! 1) (''] '' @ [dquote]) ! 1)) lines
        \<and> (\<forall>line \<in> set lines. prefix (hd (split line '' - - ['') @ '' - - ['') line))
   \<and> access_record (''127.0.0.1 - - [01/Jan/2020] '' @ [dquote] @ ''GET /x HTTP/1.1'' @ [dquote]
       @ '' 200 - -'') = Inr ''127.0.0.1 GET /x HTTP/1.1 200  ''
   \<and> (access_record line = Inr record \<longrightarrow>
        prefix (hd (split line '' - - ['') @ '' - - ['') line
        \<and> record = hd (split line '' - - ['') @ '' '' @
            filter (\<lambda>c. c \<noteq> dquote \<and> c \<noteq> CHR ''-'')
              (split (split line '' - - ['' ! 1) (''] '' @ [dquote]) ! 1))"
proof (intro conjI)
  show "parse_log_file ApacheAccessLogHandler
     [''127.0.0.1 - - [01/Jan/2020] '' @ [dquote] @ ''GET /x HTTP/1.1'' @ [dquote] @ '' 200 - -'']
     = Inr [''127.0.0.1 GET /x HTTP/1.1 200  '']"
    using access_example_record by simp
next
  let ?f = "\<lambda>line. hd (split line '' - - ['') @ '' '' @
                    filter (\<lambda>c. c \<noteq> dquote \<and> c \<noteq> CHR ''-'')
                      (split (split line '' - - ['' ! 1) (''] '' @ [dquote]) ! 1)"
  show "parse_log_file ApacheAccessLogHandler lines = Inr records \<longrightarrow>
        records = map ?f lines
        \<and> (\<forall>line \<in> set lines. prefix (hd (split line '' - - ['') @ '' - - ['') line)"
  proof
    assume "parse_log_file ApacheAccessLogHandler lines = Inr records"
    then have a: "list_all2 (\<lambda>l r. access_record l = Inr r) lines records"
      using access_loop_Inr[of "[]" lines records] by simp
    then have "list_all2 (\<lambda>l r. r = ?f l) lines records"
      by (rule list_all2_mono) (use access_record_Inr in blast)
    then have m: "records = map ?f lines"
      by (induction lines records rule: list_all2_induct) auto
    have "\<forall>line \<in> set lines. prefix (hd (split line '' - - ['') @ '' - - ['') line"
    proof
      fix line assume "line \<in> set lines"
      then obtain r where "access_record line = Inr r"
        using a by (auto simp: list_all2_conv_all_nth in_set_conv_nth)
      then show "prefix (hd (split line '' - - ['') @ '' - - ['') line"
        using access_record_Inr by blast
    qed
    then show "records = map ?f lines
        \<and> (\<forall>line \<in> set lines. prefix (hd (split line '' - - ['') @ '' - - ['') line)"
      using m by simp
  qed
next
  show "access_record (''127.0.0.1 - - [01/Jan/2020] '' @ [dquote] @ ''GET /x HTTP/1.1'' @ [dquote]
       @ '' 200 - -'') = Inr ''127.0.0.1 GET /x HTTP/1.1 200  ''"
    by (rule access_example_record)
next
  show "access_record line = Inr record \<longrightarrow>
        prefix (hd (split line '' - - ['') @ '' - - ['') line
        \<and> record = hd (split line '' - - ['') @ '' '' @
            filter (\<lambda>c. c \<noteq> dquote \<and> c \<noteq> CHR ''-'')
              (split (split line '' - - ['' ! 1) (''] '' @ [dquote]) ! 1)"
    using access_record_Inr by blast
qed

text \<open>The theorem of C6 on the file that holds the line of the claim.\<close>

theorem access_log_normalizer_witness:
  "parse_log_file ApacheAccessLogHandler
     [''127.0.0.1 - - [01/Jan/2020] '' @ [dquote] @ ''GET /x HTTP/1.1'' @ [dquote] @ '' 200 - -'']
     = Inr [''127.0.0.1 GET /x HTTP/1.1 200  '']
   \<and> [''127.0.0.1 GET /x HTTP/1.1 200  ''] =
       map (\<lambda>line. hd (split line '' - - ['') @ '' '' @
                    filter (\<lambda>c. c \<noteq> dquote \<and> c \<noteq> CHR ''-'')
                      (split (split line '' - - ['' ! 1) (''] '' @ [dquote]) ! 1))
         [''127.0.0.1 - - [01/Jan/2020] '' @ [dquote] @ ''GET /x HTTP/1.1'' @ [dquote] @ '' 200 - -'']
   \<and> access_record (''127.0.0.1 - - [01/Jan/2020] '' @ [dquote] @ ''GET /x HTTP/1.1'' @ [dquote]
       @ '' 200 - -'') = Inr ''127.0.0.1 GET /x HTTP/1.1 200  ''
   \<and> prefix (''127.0.0.1'' @ '' - - ['')
        (''127.0.0.1 - - [01/Jan/2020] '' @ [dquote] @ ''GET /x HTTP/1.1'' @ [dquote] @ '' 200 - -'')
   \<and> ''127.0.0.1 GET /x HTTP/1.1 200  '' = ''127.0.0.1'' @ '' '' @
        filter (\<lambda>c. c \<noteq> dquote \<and> c \<noteq> CHR ''-'') (''GET /x HTTP/1.1'' @ [dquote] @ '' 200 - -'')"
  using access_log_normalizer
    [of "[''127.0.0.1 - - [01/Jan/2020] '' @ [dquote] @ ''GET /x HTTP/1.1'' @ [dquote] @ '' 200 - -'']"
        "[''127.0.0.1 GET /x HTTP/1.1 200  '']"
        "''127.0.0.1 - - [01/Jan/2020] '' @ [dquote] @ ''GET /x HTTP/1.1'' @ [dquote] @ '' 200 - -''"
        "''127.0.0.1 GET /x HTTP/1.1 200  ''"]
  by (simp add: split_def dquote_def)

text \<open>
  Claim C7. The two handlers treat a malformed line differently. If some line of an access
  log does not contain \<^verbatim>\<open> - - [\<close>, or its second part does not contain \<^verbatim>\<open>] "\<close>, the
  access-log handler raises \<^verbatim>\<open>IndexError\<close> and returns no records at all. The error-log
  handler always returns a list, and a line whose split on \<^verbatim>\<open>"] "\<close> has two parts or fewer
  leaves that list as if the line were absent.
\<close>

theorem asymmetric_error_policy:
  "(l \<in> set lines \<and>
      (\<not> (\<exists>a b. l = a @ '' - - ['' @ b) \<or>
       \<not> (\<exists>a b. split l '' - - ['' ! 1 = a @ (''] '' @ [dquote]) @ b))
     \<longrightarrow> parse_log_file ApacheAccessLogHandler lines = Inl IndexError)
   \<and> (\<exists>records. parse_log_file ApacheErrorLogHandler lines = Inr records)
   \<and> (length (split l ''] '') \<le> 2 \<longrightarrow>
        parse_log_file ApacheErrorLogHandler (before @ [l] @ after) =
        parse_log_file ApacheErrorLogHandler (before @ after))"
proof (intro conjI impI)
  assume a: "l \<in> set lines \<and>
      (\<not> (\<exists>a b. l = a @ '' - - ['' @ b) \<or>
       \<not> (\<exists>a b. split l '' - - ['' ! 1 = a @ (''] '' @ [dquote]) @ b))"
  then have "length (split l '' - - ['') < 2 \<or>
      length (split (split l '' - - ['' ! 1) (''] '' @ [dquote])) < 2"
    using split_single_iff[of "'' - - [''" l]
      split_single_iff[of "''] '' @ [dquote]" "split l '' - - ['' ! 1"] by auto
  then have "access_record l = Inl IndexError"
    by (auto simp: access_record_cases Let_def)
  then show "parse_log_file ApacheAccessLogHandler lines = Inl IndexError"
    using a access_loop_abort[of l lines "[]"] by simp
next
  show "\<exists>records. parse_log_file ApacheErrorLogHandler lines = Inr records" by simp
next
  assume "length (split l ''] '') \<le> 2"
  then have "error_line [] l = []" by (simp add: error_line_def Let_def)
  then show "parse_log_file ApacheErrorLogHandler (before @ [l] @ after) =
        parse_log_file ApacheErrorLogHandler (before @ after)"
    by (simp add: error_loop_concat)
qed

text \<open>The theorem of C7 on a two-line file whose second line has no delimiter.\<close>

theorem asymmetric_error_policy_witness:
  "''no delimiters here'' \<in> set [''[a] [b] kept'', ''no delimiters here'']
   \<and> \<not> (\<exists>a b. ''no delimiters here'' = a @ '' - - ['' @ b)
   \<and> parse_log_file ApacheAccessLogHandler [''[a] [b] kept'', ''no delimiters here'']
       = Inl IndexError
   \<and> length (split ''no delimiters here'' ''] '') \<le> 2
   \<and> parse_log_file ApacheErrorLogHandler ([''[a] [b] kept''] @ [''no delimiters here''] @ [])
       = Inr [''kept'']"
proof -
  have n: "\<not> (\<exists>a b. ''no delimiters here'' = a @ '' - - ['' @ b)"
    using split_single_iff[of "'' - - [''" "''no delimiters here''"] by (simp add: split_def)
  have s: "length (split ''no delimiters here'' ''] '') \<le> 2" by (simp add: split_def)
  have k: "parse_log_file ApacheErrorLogHandler ([''[a] [b] kept''] @ []) = Inr [''kept'']"
    by (simp add: error_line_def split_def)
  show ?thesis
    using asymmetric_error_policy
      [of "''no delimiters here''" "[''[a] [b] kept'', ''no delimiters here'']"
          "[''[a] [b] kept'']" "[]"] n s k
    by simp
qed

text \<open>
  Claim C10. Neither handler is meant to strip the line terminator: a record made from a
  line that ends in a newline should end in that newline. The access-log handler keeps only
  the part at index 1 of the split on \<^verbatim>\<open>] "\<close>. On the line below the delimiter occurs a
  second time, at the end of the quoted user agent, so the record stops there and the end of
  the line, newline included, is lost. The error-log handler joins all parts from index 2
  on, and on the corresponding error-log line it keeps the end of the line and the newline.
\<close>

theorem access_handler_drops_newline:
  "parse_log_file ApacheAccessLogHandler
     [''10.0.0.1 - - [01/Jan/2020] '' @ [dquote] @ ''GET / HTTP/1.1'' @ [dquote] @
      '' 200 12 '' @ [dquote] @ ''-'' @ [dquote] @ '' '' @ [dquote] @ ''bot [v1] '' @ [dquote] @
      [newline]] = Inr [''10.0.0.1 GET / HTTP/1.1 200 12  bot [v1'']
   \<and> last (''10.0.0.1 - - [01/Jan/2020] '' @ [dquote] @ ''GET / HTTP/1.1'' @ [dquote] @
      '' 200 12 '' @ [dquote] @ ''-'' @ [dquote] @ '' '' @ [dquote] @ ''bot [v1] '' @ [dquote] @
      [newline]) = newline
   \<and> last ''10.0.0.1 GET / HTTP/1.1 200 12  bot [v1'' \<noteq> newline
   \<and> parse_log_file ApacheErrorLogHandler
     [''[01/Jan/2020] [error] GET / HTTP/1.1 200 12 bot [v1] '' @ [dquote] @ [newline]]
       = Inr [''GET / HTTP/1.1 200 12 bot [v1 '' @ [dquote] @ [newline]]"
  by (simp add: access_record_def error_line_def split_def getitem_def dquote_def newline_def
      replace_char_def)

section \<open>Properties of the vectorizer\<close>

lemma set_vocabulary_add: "set (vocabulary_add v fs) = set v \<union> set fs"
  by (induction v fs rule: vocabulary_add.induct) auto

lemma distinct_vocabulary_add: "distinct v \<Longrightarrow> distinct (vocabulary_add v fs)"
  by (induction v fs rule: vocabulary_add.induct) auto

lemma set_count_vocab:
  "set (count_vocab n v docs) = set v \<union> (\<Union>doc \<in> set docs. set (analyze n doc))"
  by (induction n v docs rule: count_vocab.induct) (auto simp: set_vocabulary_add)

lemma distinct_count_vocab: "distinct v \<Longrightarrow> distinct (count_vocab n v docs)"
  by (induction n v docs rule: count_vocab.induct) (auto simp: distinct_vocabulary_add)

lemma set_feature_names:
  "set (feature_names n docs) = set (count_vocab n [] docs)"
  by (simp add: feature_names_def)

lemma index_of_nth: "x \<in> set xs \<Longrightarrow> index_of xs x < length xs \<and> xs ! index_of xs x = x"
  by (induction xs) auto

lemma count_list_zero_iff: "(count_list xs x = 0) = (x \<notin> set xs)"
  by (induction xs) auto

lemma document_frequency_count_matrix:
  assumes "j < length (feature_names n docs)"
  shows "document_frequency (count_matrix n docs) j = df n docs (feature_names n docs ! j)"
proof -
  have "filter (\<lambda>row. row ! j \<noteq> 0) (count_matrix n docs) =
        map (\<lambda>doc. map (\<lambda>term. real (count_list (analyze n doc) term)) (feature_names n docs))
          (filter (\<lambda>doc. feature_names n docs ! j \<in> set (analyze n doc)) docs)"
    using assms by (simp add: count_matrix_def filter_map comp_def count_list_zero_iff)
  then show ?thesis by (simp add: document_frequency_def df_def)
qed

lemma length_count_matrix: "length (count_matrix n docs) = length docs"
  by (simp add: count_matrix_def)

lemma idf_vector_eq:
  "idf_vector (count_matrix n docs) (length (feature_names n docs)) =
   map (idf n docs) (feature_names n docs)"
proof (rule nth_equalityI)
  show "length (idf_vector (count_matrix n docs) (length (feature_names n docs))) =
        length (map (idf n docs) (feature_names n docs))"
    by (simp add: idf_vector_def)
next
  fix j
  assume "j < length (idf_vector (count_matrix n docs) (length (feature_names n docs)))"
  then have j: "j < length (feature_names n docs)" by (simp add: idf_vector_def)
  then show "idf_vector (count_matrix n docs) (length (feature_names n docs)) ! j =
        map (idf n docs) (feature_names n docs) ! j"
    using length_count_matrix[of n docs]
    by (simp add: idf_vector_def document_frequency_count_matrix idf_def)
qed

lemma scale_row_eq:
  "scale_row (map w names) (map c names) = map (\<lambda>g. c g * w g) names"
  by (induction names) (auto simp: scale_row_def)

lemma normalize_l2_eq:
  "normalize_l2 (map f names) =
   (let r = sqrt (sum_list (map (\<lambda>g. (f g)\<^sup>2) names))
    in map (\<lambda>g. if r = 0 then f g else f g / r) names)"
proof -
  have "sum_list (map (\<lambda>x. x * x) (map f names)) = sum_list (map (\<lambda>g. (f g)\<^sup>2) names)"
    by (simp add: comp_def power2_eq_square)
  then show ?thesis
    by (simp add: normalize_l2_def Let_def comp_def)
qed

lemma bag_of_words_eq:
  "map (\<lambda>row. normalize_l2 (scale_row
          (idf_vector (count_matrix n docs) (length (feature_names n docs))) row))
     (count_matrix n docs) =
   map (\<lambda>doc. map (\<lambda>g. if row_norm n docs doc = 0 then tfidf n docs doc g
                           else tfidf n docs doc g / row_norm n docs doc)
     (feature_names n docs)) docs"
proof -
  have "normalize_l2 (scale_row (map (idf n docs) (feature_names n docs))
          (map (\<lambda>term. real (count_list (analyze n doc) term)) (feature_names n docs))) =
        map (\<lambda>g. if row_norm n docs doc = 0 then tfidf n docs doc g
                           else tfidf n docs doc g / row_norm n docs doc)
          (feature_names n docs)" for doc
    by (simp add: scale_row_eq normalize_l2_eq Let_def row_norm_def tfidf_def tf_def)
  then show ?thesis
    unfolding idf_vector_eq by (simp add: count_matrix_def comp_def)
qed

lemma sum_axis0_nth:
  assumes "j < length names"
  shows "sum_axis0 (map (\<lambda>doc. map (f doc) names) docs) (length names) ! j =
         sum_list (map (\<lambda>doc. f doc (names ! j)) docs)"
  using assms by (simp add: sum_axis0_def comp_def)

lemma words_freq_eq:
  assumes "fit_transform n docs = Inr bag_of_words"
  shows "words_freq n docs bag_of_words =
         map (\<lambda>g. (g, normalized_tfidf_sum n docs g)) (count_vocab n [] docs)"
proof -
  let ?names = "feature_names n docs"
  let ?f = "\<lambda>doc g. if row_norm n docs doc = 0 then tfidf n docs doc g
                           else tfidf n docs doc g / row_norm n docs doc"
  have bow: "bag_of_words = map (\<lambda>doc. map (?f doc) ?names) docs"
    using assms bag_of_words_eq[of n docs]
    by (simp add: fit_transform_def Let_def split: if_splits)
  have "sum_axis0 bag_of_words (length ?names) ! index_of ?names g =
        normalized_tfidf_sum n docs g" if "g \<in> set (count_vocab n [] docs)" for g
  proof -
    have g: "g \<in> set ?names" using that by (simp add: set_feature_names)
    define j where "j = index_of ?names g"
    have j: "j < length ?names" "?names ! j = g"
      using index_of_nth[of g ?names] g by (simp_all add: j_def)
    have "sum_axis0 bag_of_words (length ?names) ! j =
          sum_list (map (\<lambda>doc. ?f doc (?names ! j)) docs)"
      unfolding bow using j(1) by (rule sum_axis0_nth)
    then show ?thesis
      unfolding j(2) by (simp add: normalized_tfidf_sum_def j_def)
  qed
  then show ?thesis
    by (simp add: words_freq_def vocabulary_items_def Let_def comp_def)
qed

lemma get_top_ngrams_eq:
  "get_top_ngrams docs n =
     (if count_vocab n [] docs = [] then Inl ValueError
      else Inr (take 10 (sort_key (\<lambda>x. - snd x)
             (map (\<lambda>g. (g, normalized_tfidf_sum n docs g)) (count_vocab n [] docs)))))"
proof (cases "count_vocab n [] docs = []")
  case True
  then show ?thesis by (simp add: get_top_ngrams_def fit_transform_def)
next
  case False
  then obtain bow where b: "fit_transform n docs = Inr bow"
    by (simp add: fit_transform_def Let_def)
  then show ?thesis using False words_freq_eq[OF b] by (simp add: get_top_ngrams_def)
qed

lemma analyze_short: "1 \<le> n \<Longrightarrow> length (tokenize doc) < n \<Longrightarrow> analyze n doc = []"
  by (auto simp: analyze_def word_ngrams_def)

lemma count_vocab_empty_iff:
  "(count_vocab n [] docs = []) = (\<forall>doc \<in> set docs. analyze n doc = [])"
proof -
  have "(count_vocab n [] docs = []) = (set (count_vocab n [] docs) = {})" by simp
  also have "\<dots> = (\<forall>doc \<in> set docs. analyze n doc = [])"
    unfolding set_count_vocab by auto
  finally show ?thesis .
qed

lemma length_count_vocab:
  "length (count_vocab n [] docs) = card (\<Union>doc \<in> set docs. set (analyze n doc))"
proof -
  have "distinct (count_vocab n [] docs)" by (simp add: distinct_count_vocab)
  then have "length (count_vocab n [] docs) = card (set (count_vocab n [] docs))"
    by (simp add: distinct_card)
  then show ?thesis by (simp add: set_count_vocab)
qed

lemma sorted_desc_take:
  "sorted_wrt (\<lambda>a b. b \<le> a) (map snd (take k (sort_key (\<lambda>x. - snd x) (xs :: ('a \<times> real) list))))"
proof -
  have "sorted (map (\<lambda>x. - snd x) (sort_key (\<lambda>x. - snd x) xs))" by (rule sorted_sort_key)
  then have "sorted_wrt (\<lambda>a b. snd b \<le> snd a) (sort_key (\<lambda>x. - snd x) xs)"
    by (simp add: sorted_wrt_map)
  then have "sorted_wrt (\<lambda>a b. snd b \<le> snd a) (take k (sort_key (\<lambda>x. - snd x) xs))"
    by (rule sorted_wrt_take)
  then show ?thesis by (simp add: sorted_wrt_map)
qed

lemma fit_transform_eq:
  "fit_transform n docs =
     (if count_vocab n [] docs = [] then Inl ValueError
      else Inr (map (\<lambda>doc. normalize_l2
                  (map (\<lambda>t. tf n doc t * (ln (real (length docs) / real (df n docs t)) + 1))
                     (feature_names n docs))) docs))"
proof -
  have "normalize_l2 (scale_row (map (idf n docs) (feature_names n docs))
          (map (\<lambda>term. real (count_list (analyze n doc) term)) (feature_names n docs))) =
        normalize_l2
          (map (\<lambda>t. tf n doc t * (ln (real (length docs) / real (df n docs t)) + 1))
             (feature_names n docs))" for doc
    by (simp add: scale_row_eq tf_def idf_def)
  then have "map (\<lambda>row. normalize_l2 (scale_row
          (idf_vector (count_matrix n docs) (length (feature_names n docs))) row))
     (count_matrix n docs) =
      map (\<lambda>doc. normalize_l2
                  (map (\<lambda>t. tf n doc t * (ln (real (length docs) / real (df n docs t)) + 1))
                     (feature_names n docs))) docs"
    unfolding idf_vector_eq by (simp add: count_matrix_def comp_def)
  then show ?thesis by (simp add: fit_transform_def Let_def)
qed

lemma normalized_row_nth:
  assumes "g \<in> set (feature_names n docs)"
  shows "normalize_l2
           (map (\<lambda>t. tf n doc t * (ln (real (length docs) / real (df n docs t)) + 1))
              (feature_names n docs)) ! index_of (feature_names n docs) g =
         (if row_norm n docs doc = 0 then tfidf n docs doc g
          else tfidf n docs doc g / row_norm n docs doc)"
proof -
  define j where "j = index_of (feature_names n docs) g"
  have j: "j < length (feature_names n docs)" "feature_names n docs ! j = g"
    using index_of_nth[of g "feature_names n docs"] assms by (simp_all add: j_def)
  have "normalize_l2
           (map (\<lambda>t. tf n doc t * (ln (real (length docs) / real (df n docs t)) + 1))
              (feature_names n docs)) =
        map (\<lambda>t. if row_norm n docs doc = 0 then tfidf n docs doc t
                  else tfidf n docs doc t / row_norm n docs doc) (feature_names n docs)"
    by (simp add: normalize_l2_eq Let_def row_norm_def tfidf_def idf_def)
  then show ?thesis unfolding j_def[symmetric] using j by simp
qed


section \<open>Bounds on the logarithms of the example corpus\<close>

lemma exp_upper_16:
  fixes x :: real
  assumes "0 \<le> x" "x \<le> 1" "(1 + x + x\<^sup>2) ^ 16 < c"
  shows "exp (16 * x) < c"
proof -
  have "exp x \<le> 1 + x + x\<^sup>2" using assms(1,2) by (rule exp_bound)
  then have "exp x ^ 16 \<le> (1 + x + x\<^sup>2) ^ 16" by (rule power_mono) simp
  moreover have "exp (16 * x) = exp x ^ 16" using exp_of_nat_mult[of 16 x] by simp
  ultimately show ?thesis using assms(3) by simp
qed

lemma exp_lower_32:
  fixes x :: real
  assumes "0 \<le> x" "c < (1 + x) ^ 32"
  shows "c < exp (32 * x)"
proof -
  have "1 + x \<le> exp x" by (rule exp_ge_add_one_self)
  then have "(1 + x) ^ 32 \<le> exp x ^ 32" using assms(1) by (intro power_mono) simp_all
  moreover have "exp (32 * x) = exp x ^ 32" using exp_of_nat_mult[of 32 x] by simp
  ultimately show ?thesis using assms(2) by simp
qed

lemma ln_three_halves_lower: "2/5 < ln (3/2 :: real)"
proof -
  have "exp (16 * (1/40 :: real)) < 3/2"
    by (rule exp_upper_16) (simp_all add: power2_eq_square power_divide)
  then have "exp (2/5 :: real) < 3/2" by simp
  then have "ln (exp (2/5 :: real)) < ln (3/2)" by (subst ln_less_cancel_iff) simp_all
  then show ?thesis by simp
qed

lemma ln_three_halves_upper: "ln (3/2 :: real) < 41/100"
proof -
  have "3/2 < exp (32 * (41/3200 :: real))"
    by (rule exp_lower_32) (simp_all add: power_divide)
  then have "3/2 < exp (41/100 :: real)" by simp
  then have "ln (3/2) < ln (exp (41/100 :: real))" by (subst ln_less_cancel_iff) simp_all
  then show ?thesis by simp
qed

lemma ln_three_lower: "53/50 < ln (3 :: real)"
proof -
  have "exp (16 * (53/800 :: real)) < 3"
    by (rule exp_upper_16) (simp_all add: power2_eq_square power_divide)
  then have "exp (53/50 :: real) < 3" by simp
  then have "ln (exp (53/50 :: real)) < ln 3" by (subst ln_less_cancel_iff) simp_all
  then show ?thesis by simp
qed

lemma ln_three_upper: "ln (3 :: real) < 57/50"
proof -
  have "3 < exp (32 * (114/3200 :: real))"
    by (rule exp_lower_32) (simp_all add: power_divide)
  then have "3 < exp (57/50 :: real)" by simp
  then have "ln 3 < ln (exp (57/50 :: real))" by (subst ln_less_cancel_iff) simp_all
  then show ?thesis by simp
qed

section \<open>The scorer on concrete corpora\<close>

lemma four_tokens_vocab: "count_vocab (Suc 0) [] [''a b c d''] = [''a'', ''b'', ''c'', ''d'']"
  by code_simp
lemma four_tokens_names: "feature_names (Suc 0) [''a b c d''] = [''a'', ''b'', ''c'', ''d'']"
  by code_simp
lemma four_tokens_analyze: "analyze (Suc 0) ''a b c d'' = [''a'', ''b'', ''c'', ''d'']"
  by code_simp

lemma four_tokens_norm: "row_norm (Suc 0) [''a b c d''] ''a b c d'' = 2"
  by (simp add: row_norm_def four_tokens_names tfidf_def tf_def idf_def df_def four_tokens_analyze)

lemma four_tokens_result:
  "get_top_ngrams [''a b c d''] 1 = Inr [(''a'', 1/2), (''b'', 1/2), (''c'', 1/2), (''d'', 1/2)]"
  by (simp add: get_top_ngrams_eq four_tokens_vocab normalized_tfidf_sum_def four_tokens_norm
      tfidf_def tf_def idf_def df_def four_tokens_analyze)

lemma four_tokens_raw: "raw_tfidf_sum 1 [''a b c d''] ''a'' = 1"
  by (simp add: raw_tfidf_sum_def tfidf_def tf_def idf_def df_def four_tokens_analyze)

lemma three_docs_vocab: "count_vocab (Suc 0) [] [''a b'', ''a c'', ''a b''] = [''a'', ''b'', ''c'']"
  by code_simp
lemma three_docs_names: "feature_names (Suc 0) [''a b'', ''a c'', ''a b''] = [''a'', ''b'', ''c'']"
  by code_simp
lemma three_docs_analyze: "analyze (Suc 0) ''a b'' = [''a'', ''b'']" "analyze (Suc 0) ''a c'' = [''a'', ''c'']"
  by code_simp+

lemma three_docs_idf:
  "idf (Suc 0) [''a b'', ''a c'', ''a b''] ''a'' = 1"
  "idf (Suc 0) [''a b'', ''a c'', ''a b''] ''b'' = ln (3/2) + 1"
  "idf (Suc 0) [''a b'', ''a c'', ''a b''] ''c'' = ln 3 + 1"
  by (simp_all add: idf_def df_def three_docs_analyze)

lemma three_docs_norm:
  "row_norm (Suc 0) [''a b'', ''a c'', ''a b''] ''a b'' = sqrt (1 + (ln (3/2) + 1)\<^sup>2)"
  "row_norm (Suc 0) [''a b'', ''a c'', ''a b''] ''a c'' = sqrt (1 + (ln 3 + 1)\<^sup>2)"
  by (simp_all add: row_norm_def three_docs_names tfidf_def tf_def three_docs_idf three_docs_analyze)

lemma sqrt_one_plus_square_pos: "0 < sqrt (1 + (t::real)\<^sup>2)"
proof -
  have "0 < 1 + t\<^sup>2" by (rule add_pos_nonneg) simp_all
  then show ?thesis by simp
qed

lemma three_docs_norm_nonzero:
  "row_norm (Suc 0) [''a b'', ''a c'', ''a b''] ''a b'' \<noteq> 0"
  "row_norm (Suc 0) [''a b'', ''a c'', ''a b''] ''a c'' \<noteq> 0"
  unfolding three_docs_norm
  using sqrt_one_plus_square_pos[of "ln (3/2) + 1"] sqrt_one_plus_square_pos[of "ln 3 + 1"]
  by simp_all

lemma three_docs_a:
  "normalized_tfidf_sum (Suc 0) [''a b'', ''a c'', ''a b''] ''a'' =
     2 / sqrt (1 + (ln (3/2) + 1)\<^sup>2) + 1 / sqrt (1 + (ln 3 + 1)\<^sup>2)"
  by (simp add: normalized_tfidf_sum_def three_docs_norm_nonzero tfidf_def tf_def three_docs_idf three_docs_analyze)
     (simp add: three_docs_norm)

lemma three_docs_b:
  "normalized_tfidf_sum (Suc 0) [''a b'', ''a c'', ''a b''] ''b'' =
     2 * (ln (3/2) + 1) / sqrt (1 + (ln (3/2) + 1)\<^sup>2)"
  by (simp add: normalized_tfidf_sum_def three_docs_norm_nonzero tfidf_def tf_def three_docs_idf three_docs_analyze)
     (simp add: three_docs_norm)

lemma three_docs_c:
  "normalized_tfidf_sum (Suc 0) [''a b'', ''a c'', ''a b''] ''c'' =
     (ln 3 + 1) / sqrt (1 + (ln 3 + 1)\<^sup>2)"
  by (simp add: normalized_tfidf_sum_def three_docs_norm_nonzero tfidf_def tf_def three_docs_idf three_docs_analyze)
     (simp add: three_docs_norm)

lemma idf_b_square: "49/25 < (ln (3/2 :: real) + 1)\<^sup>2 \<and> (ln (3/2 :: real) + 1)\<^sup>2 < 19881/10000"
proof -
  let ?x = "ln (3/2 :: real) + 1"
  have l: "7/5 < ?x" using ln_three_halves_lower by simp
  have u: "?x < 141/100" using ln_three_halves_upper by simp
  have "(7/5 :: real)\<^sup>2 < ?x\<^sup>2" using l by (intro power_strict_mono) simp_all
  moreover have "?x\<^sup>2 < (141/100)\<^sup>2" using l u by (intro power_strict_mono) simp_all
  ultimately show ?thesis by (simp add: power2_eq_square)
qed

lemma idf_c_bounds: "103/50 < ln (3 :: real) + 1 \<and> ln (3 :: real) + 1 < 107/50"
  using ln_three_lower ln_three_upper by simp

lemma idf_c_square: "10609/2500 < (ln (3 :: real) + 1)\<^sup>2 \<and> (ln (3 :: real) + 1)\<^sup>2 < 11449/2500"
proof -
  let ?y = "ln (3 :: real) + 1"
  have l: "103/50 < ?y" and u: "?y < 107/50" using idf_c_bounds by simp_all
  have "(103/50 :: real)\<^sup>2 < ?y\<^sup>2" using l by (intro power_strict_mono) simp_all
  moreover have "?y\<^sup>2 < (107/50)\<^sup>2" using l u by (intro power_strict_mono) simp_all
  ultimately show ?thesis by (simp add: power2_eq_square)
qed

lemma sqrt_between:
  fixes s lo hi :: real
  assumes "0 \<le> lo" "0 \<le> hi" "lo\<^sup>2 < s" "s < hi\<^sup>2"
  shows "lo < sqrt s \<and> sqrt s < hi"
proof
  show "lo < sqrt s" using assms(3) by (rule real_less_rsqrt)
  have "0 \<le> s" using assms(3) by (meson less_eq_real_def order_trans zero_le_power2)
  show "sqrt s < hi" using assms(2,4) by (intro real_less_lsqrt) simp_all
qed

lemma norm_ab_bounds:
  "43/25 < sqrt (1 + (ln (3/2 :: real) + 1)\<^sup>2) \<and> sqrt (1 + (ln (3/2 :: real) + 1)\<^sup>2) < 17287/10000"
  using idf_b_square by (intro sqrt_between) (simp_all add: power2_eq_square)

lemma norm_ac_bounds:
  "11449/5000 < sqrt (1 + (ln (3 :: real) + 1)\<^sup>2) \<and> sqrt (1 + (ln (3 :: real) + 1)\<^sup>2) < 11811/5000"
  using idf_c_square by (intro sqrt_between) (simp_all add: power2_eq_square)

lemma recip_between:
  fixes s lo hi c :: real
  assumes "0 < lo" "lo < s" "s < hi" "0 < c"
  shows "c / hi < c / s \<and> c / s < c / lo"
proof
  have s: "0 < s" using assms(1,2) by simp
  show "c / hi < c / s" using assms(3,4) s by (intro divide_strict_left_mono) simp_all
  show "c / s < c / lo" using assms(1,2,4) s by (intro divide_strict_left_mono) simp_all
qed

lemma ratio_between:
  fixes t lo hi :: real
  assumes "0 < t" "0 < lo" "0 < hi"
    and "lo\<^sup>2 * (1 + t\<^sup>2) < t\<^sup>2" and "t\<^sup>2 < hi\<^sup>2 * (1 + t\<^sup>2)"
  shows "lo < t / sqrt (1 + t\<^sup>2) \<and> t / sqrt (1 + t\<^sup>2) < hi"
proof
  have pos: "0 < sqrt (1 + t\<^sup>2)" by (rule sqrt_one_plus_square_pos)
  have "1 + t\<^sup>2 < t\<^sup>2 / lo\<^sup>2"
    using assms(2,4) by (simp add: pos_less_divide_eq mult.commute)
  then have "1 + t\<^sup>2 < (t / lo)\<^sup>2" by (simp add: power_divide)
  then have "sqrt (1 + t\<^sup>2) < t / lo"
    using assms(1,2) by (intro real_less_lsqrt) simp_all
  then have "lo * sqrt (1 + t\<^sup>2) < t" using assms(2) by (simp add: field_simps)
  then show "lo < t / sqrt (1 + t\<^sup>2)" using pos by (simp add: field_simps)
  have "t\<^sup>2 / hi\<^sup>2 < 1 + t\<^sup>2"
    using assms(3,5) by (simp add: pos_divide_less_eq mult.commute)
  then have "(t / hi)\<^sup>2 < 1 + t\<^sup>2" by (simp add: power_divide)
  then have "t / hi < sqrt (1 + t\<^sup>2)" by (rule real_less_rsqrt)
  then have "t < hi * sqrt (1 + t\<^sup>2)" using assms(3) by (simp add: field_simps)
  then show "t / sqrt (1 + t\<^sup>2) < hi" using pos by (simp add: field_simps)
qed

lemma weight_a_bounds:
  "79/50 < 2 / sqrt (1 + (ln (3/2 :: real) + 1)\<^sup>2) + 1 / sqrt (1 + (ln (3 :: real) + 1)\<^sup>2)
   \<and> 2 / sqrt (1 + (ln (3/2 :: real) + 1)\<^sup>2) + 1 / sqrt (1 + (ln (3 :: real) + 1)\<^sup>2) < 8/5"
proof -
  let ?sx = "sqrt (1 + (ln (3/2 :: real) + 1)\<^sup>2)"
  let ?sy = "sqrt (1 + (ln (3 :: real) + 1)\<^sup>2)"
  have x: "2 / (17287/10000) < 2 / ?sx \<and> 2 / ?sx < 2 / (43/25)"
    using norm_ab_bounds by (intro recip_between) simp_all
  have y: "1 / (11811/5000) < 1 / ?sy \<and> 1 / ?sy < 1 / (11449/5000)"
    using norm_ac_bounds by (intro recip_between) simp_all
  have xl: "11569/10000 < 2 / ?sx"
    by (rule less_trans[OF _ conjunct1[OF x]]) simp
  have xu: "2 / ?sx < 11628/10000"
    by (rule less_trans[OF conjunct2[OF x]]) simp
  have yl: "4233/10000 < 1 / ?sy"
    by (rule less_trans[OF _ conjunct1[OF y]]) simp
  have yu: "1 / ?sy < 4368/10000"
    by (rule less_trans[OF conjunct2[OF y]]) simp
  show ?thesis using xl xu yl yu by simp
qed

lemma weight_b_bounds:
  "81/50 < 2 * (ln (3/2 :: real) + 1) / sqrt (1 + (ln (3/2 :: real) + 1)\<^sup>2)
   \<and> 2 * (ln (3/2 :: real) + 1) / sqrt (1 + (ln (3/2 :: real) + 1)\<^sup>2) < 41/25"
proof -
  let ?x = "ln (3/2 :: real) + 1"
  have p: "0 < ?x" using ln_three_halves_lower by simp
  define r where "r = ?x / sqrt (1 + ?x\<^sup>2)"
  have "81/100 < ?x / sqrt (1 + ?x\<^sup>2) \<and> ?x / sqrt (1 + ?x\<^sup>2) < 41/50"
    using p idf_b_square by (intro ratio_between) (simp_all add: power_divide)
  then have r: "81/100 < r" "r < 41/50" by (simp_all only: r_def)
  have "2 * ?x / sqrt (1 + ?x\<^sup>2) = 2 * r" by (simp only: r_def times_divide_eq_right)
  then show ?thesis using r by (simp only:) simp
qed

lemma weight_c_bounds:
  "89/100 < (ln (3 :: real) + 1) / sqrt (1 + (ln (3 :: real) + 1)\<^sup>2)
   \<and> (ln (3 :: real) + 1) / sqrt (1 + (ln (3 :: real) + 1)\<^sup>2) < 91/100"
proof -
  let ?y = "ln (3 :: real) + 1"
  have p: "0 < ?y" using ln_three_lower by simp
  show ?thesis
    using p idf_c_square by (intro ratio_between) (simp_all add: power_divide)
qed

lemma example_ranking:
  fixes wa wb wc :: real
  assumes "wa < wb" "wc < wa"
  shows "take 10 (sort_key (\<lambda>x. - snd x) [(''a'', wa), (''b'', wb), (''c'', wc)]) =
         [(''b'', wb), (''a'', wa), (''c'', wc)]"
  using assms by simp

lemma example_result:
  "get_top_ngrams [''a b'', ''a c'', ''a b''] 1 =
     Inr [(''b'', 2 * (ln (3/2) + 1) / sqrt (1 + (ln (3/2) + 1)\<^sup>2)),
          (''a'', 2 / sqrt (1 + (ln (3/2) + 1)\<^sup>2) + 1 / sqrt (1 + (ln 3 + 1)\<^sup>2)),
          (''c'', (ln 3 + 1) / sqrt (1 + (ln 3 + 1)\<^sup>2))]"
proof -
  let ?docs = "[''a b'', ''a c'', ''a b'']"
  let ?wa = "2 / sqrt (1 + (ln (3/2 :: real) + 1)\<^sup>2) + 1 / sqrt (1 + (ln (3 :: real) + 1)\<^sup>2)"
  let ?wb = "2 * (ln (3/2 :: real) + 1) / sqrt (1 + (ln (3/2 :: real) + 1)\<^sup>2)"
  let ?wc = "(ln (3 :: real) + 1) / sqrt (1 + (ln (3 :: real) + 1)\<^sup>2)"
  have "?wa < ?wb" "?wc < ?wa"
    using weight_a_bounds weight_b_bounds weight_c_bounds by linarith+
  then have r: "take 10 (sort_key (\<lambda>x. - snd x) [(''a'', ?wa), (''b'', ?wb), (''c'', ?wc)]) =
         [(''b'', ?wb), (''a'', ?wa), (''c'', ?wc)]"
    by (rule example_ranking)
  have "get_top_ngrams ?docs (Suc 0) =
      Inr (take 10 (sort_key (\<lambda>x. - snd x) [(''a'', ?wa), (''b'', ?wb), (''c'', ?wc)]))"
    unfolding get_top_ngrams_eq three_docs_vocab by (simp only: list.map three_docs_a three_docs_b three_docs_c) simp
  then show ?thesis unfolding r by simp
qed

lemma twelve_tokens_analyze:
  "analyze (Suc 0) ''a b c d e f g h i j k l'' =
     [''a'', ''b'', ''c'', ''d'', ''e'', ''f'', ''g'', ''h'', ''i'', ''j'', ''k'', ''l'']"
  by code_simp


section \<open>Claims about the scorer\<close>

text \<open>
  Claim C1 says that the weight reported for an n-gram is the raw sum of \<open>TF \<times> IDF\<close> over
  the documents, with no L2 row scaling. The vectorizer is built without a \<^verbatim>\<open>norm\<close>
  argument, so its default \<^verbatim>\<open>norm='l2'\<close> applies. On the single record \<^verbatim>\<open>a b c d\<close> with
  \<open>n = 1\<close> every token has raw weight 1 and the row has norm 2: the reported weight of
  \<^verbatim>\<open>a\<close> is 1/2, while the raw sum is 1.
\<close>

theorem raw_sum_counterexample:
  "get_top_ngrams [''a b c d''] 1 =
     Inr [(''a'', 1/2), (''b'', 1/2), (''c'', 1/2), (''d'', 1/2)]
   \<and> raw_tfidf_sum 1 [''a b c d''] ''a'' = 1"
  using four_tokens_result four_tokens_raw by simp

text \<open>
  Claim C1, amended. For every list of records and every \<open>n\<close>, the weight that
  \<^const>\<open>get_top_ngrams\<close> reports for an n-gram \<open>g\<close> is the sum over all documents of
  \<open>TF(g,d) \<times> IDF(g)\<close> divided by the Euclidean norm of the document's row of such weights
  (a row of norm zero is left unscaled).
\<close>

theorem aggregate_weight_normalized:
  "get_top_ngrams docs n = Inr res \<and> (g, w) \<in> set res \<longrightarrow> w = normalized_tfidf_sum n docs g"
proof
  assume a: "get_top_ngrams docs n = Inr res \<and> (g, w) \<in> set res"
  let ?wf = "map (\<lambda>g. (g, normalized_tfidf_sum n docs g)) (count_vocab n [] docs)"
  have "res = take 10 (sort_key (\<lambda>x. - snd x) ?wf)"
    using a by (simp add: get_top_ngrams_eq split: if_splits)
  then have "(g, w) \<in> set (sort_key (\<lambda>x. - snd x) ?wf)"
    using a in_set_takeD by metis
  then have "(g, w) \<in> set ?wf" by simp
  then show "w = normalized_tfidf_sum n docs g" by auto
qed

text \<open>The amended theorem of C1 on the record \<^verbatim>\<open>a b c d\<close>.\<close>

theorem aggregate_weight_normalized_witness:
  "get_top_ngrams [''a b c d''] 1 =
     Inr [(''a'', 1/2), (''b'', 1/2), (''c'', 1/2), (''d'', 1/2)]
   \<and> (''a'', 1/2) \<in> set [(''a'', 1/2 :: real), (''b'', 1/2), (''c'', 1/2), (''d'', 1/2)]
   \<and> 1/2 = normalized_tfidf_sum 1 [''a b c d''] ''a''"
  using aggregate_weight_normalized
    [of "[''a b c d'']" 1 "[(''a'', 1/2), (''b'', 1/2), (''c'', 1/2), (''d'', 1/2)]" "''a''" "1/2"]
    four_tokens_result
  by simp

text \<open>
  Claim C2 says that on the records \<^verbatim>\<open>a b\<close>, \<^verbatim>\<open>a c\<close>, \<^verbatim>\<open>a b\<close> with \<open>n = 1\<close> the weights are
  \<open>a = 3\<close>, \<open>b \<approx> 2.81\<close>, \<open>c \<approx> 2.099\<close>, ranked \<open>a > b > c\<close>. With the L2 row scaling the
  result lists \<^verbatim>\<open>b\<close> first, then \<^verbatim>\<open>a\<close>, then \<^verbatim>\<open>c\<close>, and the three weights are below 1.64,
  1.6 and 0.91.
\<close>

theorem example_corpus_counterexample:
  "get_top_ngrams [''a b'', ''a c'', ''a b''] 1 =
     Inr [(''b'', 2 * (ln (3/2) + 1) / sqrt (1 + (ln (3/2) + 1)\<^sup>2)),
          (''a'', 2 / sqrt (1 + (ln (3/2) + 1)\<^sup>2) + 1 / sqrt (1 + (ln 3 + 1)\<^sup>2)),
          (''c'', (ln 3 + 1) / sqrt (1 + (ln 3 + 1)\<^sup>2))]
   \<and> 2 * (ln (3/2) + 1) / sqrt (1 + (ln (3/2 :: real) + 1)\<^sup>2) < 41/25
   \<and> 2 / sqrt (1 + (ln (3/2 :: real) + 1)\<^sup>2) + 1 / sqrt (1 + (ln (3 :: real) + 1)\<^sup>2) < 8/5
   \<and> (ln 3 + 1) / sqrt (1 + (ln (3 :: real) + 1)\<^sup>2) < 91/100"
  using example_result weight_a_bounds weight_b_bounds weight_c_bounds by blast

text \<open>
  Claim C2, amended. On the records \<^verbatim>\<open>a b\<close>, \<^verbatim>\<open>a c\<close>, \<^verbatim>\<open>a b\<close> with \<open>n = 1\<close> the scorer
  returns \<^verbatim>\<open>b\<close>, \<^verbatim>\<open>a\<close>, \<^verbatim>\<open>c\<close> in this order; the weights are the normalized sums, with
  \<open>b\<close> between 1.62 and 1.64, \<open>a\<close> between 1.58 and 1.60 and \<open>c\<close> between 0.89 and 0.91.
\<close>

theorem example_corpus_ranking:
  "\<exists>wa wb wc. get_top_ngrams [''a b'', ''a c'', ''a b''] 1 =
       Inr [(''b'', wb), (''a'', wa), (''c'', wc)]
     \<and> wa = normalized_tfidf_sum 1 [''a b'', ''a c'', ''a b''] ''a''
     \<and> wb = normalized_tfidf_sum 1 [''a b'', ''a c'', ''a b''] ''b''
     \<and> wc = normalized_tfidf_sum 1 [''a b'', ''a c'', ''a b''] ''c''
     \<and> 79/50 < wa \<and> wa < 8/5 \<and> 81/50 < wb \<and> wb < 41/25 \<and> 89/100 < wc \<and> wc < 91/100"
proof -
  let ?wa = "2 / sqrt (1 + (ln (3/2 :: real) + 1)\<^sup>2) + 1 / sqrt (1 + (ln (3 :: real) + 1)\<^sup>2)"
  let ?wb = "2 * (ln (3/2 :: real) + 1) / sqrt (1 + (ln (3/2 :: real) + 1)\<^sup>2)"
  let ?wc = "(ln (3 :: real) + 1) / sqrt (1 + (ln (3 :: real) + 1)\<^sup>2)"
  have "get_top_ngrams [''a b'', ''a c'', ''a b''] 1 =
       Inr [(''b'', ?wb), (''a'', ?wa), (''c'', ?wc)]"
    by (rule example_result)
  moreover have "?wa = normalized_tfidf_sum 1 [''a b'', ''a c'', ''a b''] ''a''"
    using three_docs_a by simp
  moreover have "?wb = normalized_tfidf_sum 1 [''a b'', ''a c'', ''a b''] ''b''"
    using three_docs_b by simp
  moreover have "?wc = normalized_tfidf_sum 1 [''a b'', ''a c'', ''a b''] ''c''"
    using three_docs_c by simp
  ultimately show ?thesis
    using weight_a_bounds weight_b_bounds weight_c_bounds by blast
qed

text \<open>
  Claim C3 says that the scorer returns an empty list, and no error, when the corpus is
  empty or \<open>n\<close> is larger than the token count of every document. In both cases the
  vocabulary is empty and \<^verbatim>\<open>fit_transform\<close> raises \<^verbatim>\<open>ValueError\<close>.
\<close>

theorem empty_vocabulary_raises_counterexample:
  "get_top_ngrams [] 1 = Inl ValueError \<and> get_top_ngrams [''a b''] 3 = Inl ValueError"
  by (simp add: get_top_ngrams_def fit_transform_def analyze_def tokenize_def word_ngrams_def
      isspace_def)

text \<open>
  Claim C3, amended. On the empty corpus, and on every corpus all of whose documents have
  fewer than \<open>n\<close> tokens (\<open>n \<ge> 1\<close>), \<^const>\<open>get_top_ngrams\<close> raises \<^verbatim>\<open>ValueError\<close>; and it
  never returns an empty list.
\<close>

theorem empty_vocabulary_raises:
  "get_top_ngrams [] n = Inl ValueError
   \<and> (1 \<le> n \<and> (\<forall>doc \<in> set docs. length (tokenize doc) < n)
        \<longrightarrow> get_top_ngrams docs n = Inl ValueError)
   \<and> get_top_ngrams docs n \<noteq> Inr []"
proof (intro conjI)
  show "get_top_ngrams [] n = Inl ValueError" by (simp add: get_top_ngrams_eq)
next
  show "1 \<le> n \<and> (\<forall>doc \<in> set docs. length (tokenize doc) < n)
        \<longrightarrow> get_top_ngrams docs n = Inl ValueError"
  proof
    assume "1 \<le> n \<and> (\<forall>doc \<in> set docs. length (tokenize doc) < n)"
    then have "\<forall>doc \<in> set docs. analyze n doc = []" using analyze_short by blast
    then have "count_vocab n [] docs = []" by (simp add: count_vocab_empty_iff)
    then show "get_top_ngrams docs n = Inl ValueError" by (simp add: get_top_ngrams_eq)
  qed
next
  show "get_top_ngrams docs n \<noteq> Inr []"
  proof (cases "count_vocab n [] docs = []")
    case True
    then show ?thesis by (simp add: get_top_ngrams_eq)
  next
    case False
    let ?res = "take 10 (sort_key (\<lambda>x. - snd x)
             (map (\<lambda>g. (g, normalized_tfidf_sum n docs g)) (count_vocab n [] docs)))"
    have "length ?res = min 10 (length (count_vocab n [] docs))" by (simp add: min.commute)
    then have "0 < length ?res" using False by simp
    then have "?res \<noteq> []" by (rule length_greater_0_conv[THEN iffD1])
    moreover have "get_top_ngrams docs n = Inr ?res"
      using False by (simp add: get_top_ngrams_eq)
    ultimately show ?thesis by (simp only: sum.inject not_False_eq_True)
  qed
qed

text \<open>The amended theorem of C3 on the record \<^verbatim>\<open>a b\<close> with \<open>n = 3\<close>.\<close>

theorem empty_vocabulary_raises_witness:
  "(1::nat) \<le> 3 \<and> length (tokenize ''a b'') < 3 \<and> get_top_ngrams [''a b''] 3 = Inl ValueError"
proof -
  have "length (tokenize ''a b'') < 3" by (simp add: tokenize_def isspace_def)
  then show ?thesis using empty_vocabulary_raises[of 3 "[''a b'']"] by simp
qed

text \<open>
  Claim C4. The matrix that \<^verbatim>\<open>fit_transform\<close> returns is made of the rows of
  \<open>TF(t,d) \<times> (ln (D / df(t)) + 1)\<close>, L2-normalized, with \<open>D\<close> the number of documents, \<open>df(t)\<close>
  the number of documents that contain \<open>t\<close> at least once and no smoothing term; every
  weight that \<^const>\<open>get_top_ngrams\<close> reports is the column sum of these rows. The document
  frequency that the vectorizer computes for the column of \<open>g\<close> is \<open>df(g)\<close> and the idf of that
  column is \<open>ln (D / df(g)) + 1\<close>. An n-gram that occurs in every document of a non-empty
  corpus has \<open>df = D\<close> and idf exactly 1.
\<close>

theorem idf_unsmoothed:
  "(count_vocab n [] docs \<noteq> [] \<longrightarrow>
      fit_transform n docs =
        Inr (map (\<lambda>doc. normalize_l2
               (map (\<lambda>t. tf n doc t * (ln (real (length docs) / real (df n docs t)) + 1))
                  (feature_names n docs))) docs))
   \<and> (get_top_ngrams docs n = Inr res \<and> (g, w) \<in> set res \<longrightarrow>
      w = sum_list (map (\<lambda>doc. normalize_l2
               (map (\<lambda>t. tf n doc t * (ln (real (length docs) / real (df n docs t)) + 1))
                  (feature_names n docs)) ! index_of (feature_names n docs) g) docs))
   \<and> (g \<in> set (feature_names n docs) \<longrightarrow>
      document_frequency (count_matrix n docs) (index_of (feature_names n docs) g) = df n docs g
      \<and> idf_vector (count_matrix n docs) (length (feature_names n docs))
          ! index_of (feature_names n docs) g
        = ln (real (length docs) / real (df n docs g)) + 1)
   \<and> (docs \<noteq> [] \<and> (\<forall>doc \<in> set docs. g \<in> set (analyze n doc)) \<longrightarrow>
      g \<in> set (feature_names n docs)
      \<and> df n docs g = length docs
      \<and> ln (real (length docs) / real (df n docs g)) + 1 = 1
      \<and> idf_vector (count_matrix n docs) (length (feature_names n docs))
          ! index_of (feature_names n docs) g = 1)"
proof (intro conjI)
  show "count_vocab n [] docs \<noteq> [] \<longrightarrow>
      fit_transform n docs =
        Inr (map (\<lambda>doc. normalize_l2
               (map (\<lambda>t. tf n doc t * (ln (real (length docs) / real (df n docs t)) + 1))
                  (feature_names n docs))) docs)"
    by (simp add: fit_transform_eq)
next
  show "get_top_ngrams docs n = Inr res \<and> (g, w) \<in> set res \<longrightarrow>
      w = sum_list (map (\<lambda>doc. normalize_l2
               (map (\<lambda>t. tf n doc t * (ln (real (length docs) / real (df n docs t)) + 1))
                  (feature_names n docs)) ! index_of (feature_names n docs) g) docs)"
  proof
    assume a: "get_top_ngrams docs n = Inr res \<and> (g, w) \<in> set res"
    let ?wf = "map (\<lambda>g. (g, normalized_tfidf_sum n docs g)) (count_vocab n [] docs)"
    have "res = take 10 (sort_key (\<lambda>x. - snd x) ?wf)"
      using a by (simp add: get_top_ngrams_eq split: if_splits)
    then have "(g, w) \<in> set (sort_key (\<lambda>x. - snd x) ?wf)"
      using a in_set_takeD by metis
    then have "(g, w) \<in> set ?wf" by simp
    then have w: "w = normalized_tfidf_sum n docs g" and g: "g \<in> set (feature_names n docs)"
      by (auto simp: set_feature_names)
    show "w = sum_list (map (\<lambda>doc. normalize_l2
               (map (\<lambda>t. tf n doc t * (ln (real (length docs) / real (df n docs t)) + 1))
                  (feature_names n docs)) ! index_of (feature_names n docs) g) docs)"
      unfolding w normalized_tfidf_sum_def using normalized_row_nth[OF g] by simp
  qed
next
  show "g \<in> set (feature_names n docs) \<longrightarrow>
      document_frequency (count_matrix n docs) (index_of (feature_names n docs) g) = df n docs g
      \<and> idf_vector (count_matrix n docs) (length (feature_names n docs))
          ! index_of (feature_names n docs) g
        = ln (real (length docs) / real (df n docs g)) + 1"
  proof
    assume g: "g \<in> set (feature_names n docs)"
    define j where "j = index_of (feature_names n docs) g"
    have j: "j < length (feature_names n docs)" "feature_names n docs ! j = g"
      using index_of_nth[of g "feature_names n docs"] g by (simp_all add: j_def)
    have d: "document_frequency (count_matrix n docs) j = df n docs g"
      using document_frequency_count_matrix[OF j(1)] j(2) by simp
    have "idf_vector (count_matrix n docs) (length (feature_names n docs)) ! j = idf n docs g"
      unfolding idf_vector_eq using j by simp
    then show "document_frequency (count_matrix n docs) (index_of (feature_names n docs) g) = df n docs g
      \<and> idf_vector (count_matrix n docs) (length (feature_names n docs))
          ! index_of (feature_names n docs) g
        = ln (real (length docs) / real (df n docs g)) + 1"
      using d by (simp add: j_def idf_def)
  qed
next
  show "docs \<noteq> [] \<and> (\<forall>doc \<in> set docs. g \<in> set (analyze n doc)) \<longrightarrow>
      g \<in> set (feature_names n docs)
      \<and> df n docs g = length docs
      \<and> ln (real (length docs) / real (df n docs g)) + 1 = 1
      \<and> idf_vector (count_matrix n docs) (length (feature_names n docs))
          ! index_of (feature_names n docs) g = 1"
  proof
    assume a: "docs \<noteq> [] \<and> (\<forall>doc \<in> set docs. g \<in> set (analyze n doc))"
    then obtain doc where "doc \<in> set docs" by (cases docs) auto
    then have g: "g \<in> set (feature_names n docs)"
      using a by (auto simp: set_feature_names set_count_vocab)
    define j where "j = index_of (feature_names n docs) g"
    have j: "j < length (feature_names n docs)" "feature_names n docs ! j = g"
      using index_of_nth[of g "feature_names n docs"] g by (simp_all add: j_def)
    have "filter (\<lambda>doc. g \<in> set (analyze n doc)) docs = docs" using a by simp
    then have d: "df n docs g = length docs" by (simp add: df_def)
    then have one: "ln (real (length docs) / real (df n docs g)) + 1 = 1" using a by simp
    then have "idf n docs g = 1" by (simp add: idf_def)
    moreover have "idf_vector (count_matrix n docs) (length (feature_names n docs)) ! j = idf n docs g"
      unfolding idf_vector_eq using j by simp
    ultimately show "g \<in> set (feature_names n docs)
      \<and> df n docs g = length docs
      \<and> ln (real (length docs) / real (df n docs g)) + 1 = 1
      \<and> idf_vector (count_matrix n docs) (length (feature_names n docs))
          ! index_of (feature_names n docs) g = 1"
      using g d one by (simp add: j_def)
  qed
qed

text \<open>The theorem of C4 for the token \<^verbatim>\<open>a\<close> of the records \<^verbatim>\<open>a b\<close>, \<^verbatim>\<open>a c\<close>, \<^verbatim>\<open>a b\<close>.\<close>

theorem idf_unsmoothed_witness:
  "count_vocab 1 [] [''a b'', ''a c'', ''a b''] \<noteq> []
   \<and> fit_transform 1 [''a b'', ''a c'', ''a b''] =
        Inr (map (\<lambda>doc. normalize_l2
               (map (\<lambda>t. tf 1 doc t * (ln (real (length [''a b'', ''a c'', ''a b''])
                      / real (df 1 [''a b'', ''a c'', ''a b''] t)) + 1))
                  (feature_names 1 [''a b'', ''a c'', ''a b'']))) [''a b'', ''a c'', ''a b''])
   \<and> get_top_ngrams [''a b'', ''a c'', ''a b''] 1 =
        Inr [(''b'', 2 * (ln (3/2) + 1) / sqrt (1 + (ln (3/2) + 1)\<^sup>2)),
             (''a'', 2 / sqrt (1 + (ln (3/2) + 1)\<^sup>2) + 1 / sqrt (1 + (ln 3 + 1)\<^sup>2)),
             (''c'', (ln 3 + 1) / sqrt (1 + (ln 3 + 1)\<^sup>2))]
   \<and> 2 / sqrt (1 + (ln (3/2) + 1)\<^sup>2) + 1 / sqrt (1 + (ln 3 + 1)\<^sup>2) =
        sum_list (map (\<lambda>doc. normalize_l2
               (map (\<lambda>t. tf 1 doc t * (ln (real (length [''a b'', ''a c'', ''a b''])
                      / real (df 1 [''a b'', ''a c'', ''a b''] t)) + 1))
                  (feature_names 1 [''a b'', ''a c'', ''a b'']))
                ! index_of (feature_names 1 [''a b'', ''a c'', ''a b'']) ''a'')
           [''a b'', ''a c'', ''a b''])
   \<and> ''a'' \<in> set (feature_names 1 [''a b'', ''a c'', ''a b''])
   \<and> ''a'' \<in> set (analyze 1 ''a b'') \<and> ''a'' \<in> set (analyze 1 ''a c'')
   \<and> df 1 [''a b'', ''a c'', ''a b''] ''a'' = 3
   \<and> document_frequency (count_matrix 1 [''a b'', ''a c'', ''a b''])
        (index_of (feature_names 1 [''a b'', ''a c'', ''a b'']) ''a'') = 3
   \<and> idf_vector (count_matrix 1 [''a b'', ''a c'', ''a b''])
        (length (feature_names 1 [''a b'', ''a c'', ''a b'']))
        ! index_of (feature_names 1 [''a b'', ''a c'', ''a b'']) ''a'' = 1"
proof -
  let ?docs = "[''a b'', ''a c'', ''a b'']"
  let ?wa = "2 / sqrt (1 + (ln (3/2 :: real) + 1)\<^sup>2) + 1 / sqrt (1 + (ln (3 :: real) + 1)\<^sup>2)"
  let ?res = "[(''b'', 2 * (ln (3/2 :: real) + 1) / sqrt (1 + (ln (3/2 :: real) + 1)\<^sup>2)),
             (''a'', ?wa),
             (''c'', (ln (3 :: real) + 1) / sqrt (1 + (ln (3 :: real) + 1)\<^sup>2))]"
  note t = idf_unsmoothed[of 1 ?docs ?res "''a''" ?wa]
  have v: "count_vocab 1 [] ?docs \<noteq> []" unfolding One_nat_def three_docs_vocab by simp
  have r: "get_top_ngrams ?docs 1 = Inr ?res" by (rule example_result)
  have m: "(''a'', ?wa) \<in> set ?res" by simp
  have g: "''a'' \<in> set (feature_names 1 ?docs)" unfolding One_nat_def three_docs_names by simp
  have e: "?docs \<noteq> [] \<and> (\<forall>doc \<in> set ?docs. ''a'' \<in> set (analyze 1 doc))"
    by (simp add: three_docs_analyze)
  have a: "''a'' \<in> set (analyze 1 ''a b'') \<and> ''a'' \<in> set (analyze 1 ''a c'')"
    by (simp add: three_docs_analyze)
  have c1: "fit_transform 1 ?docs =
        Inr (map (\<lambda>doc. normalize_l2
               (map (\<lambda>t. tf 1 doc t * (ln (real (length ?docs) / real (df 1 ?docs t)) + 1))
                  (feature_names 1 ?docs))) ?docs)"
    using t v by blast
  have c2: "?wa = sum_list (map (\<lambda>doc. normalize_l2
               (map (\<lambda>t. tf 1 doc t * (ln (real (length ?docs) / real (df 1 ?docs t)) + 1))
                  (feature_names 1 ?docs)) ! index_of (feature_names 1 ?docs) ''a'') ?docs)"
    using t r m by blast
  have c3: "document_frequency (count_matrix 1 ?docs) (index_of (feature_names 1 ?docs) ''a'')
        = df 1 ?docs ''a''"
    using t g by blast
  have c4: "df 1 ?docs ''a'' = length ?docs
      \<and> idf_vector (count_matrix 1 ?docs) (length (feature_names 1 ?docs))
          ! index_of (feature_names 1 ?docs) ''a'' = 1"
    using t e by blast
  have d: "df 1 ?docs ''a'' = 3" using c4 by simp
  have d': "document_frequency (count_matrix 1 ?docs) (index_of (feature_names 1 ?docs) ''a'') = 3"
    using c3 d by simp
  show ?thesis using v c1 r c2 g a d d' c4 by blast
qed

text \<open>
  Claim C8 says that for every \<open>n \<ge> 1\<close> and every non-empty corpus the returned list has
  length \<open>min(10, number of distinct n-grams)\<close>. On the non-empty corpus of the single
  record \<^verbatim>\<open>a\<close> with \<open>n = 2\<close> there is no n-gram and no list is returned: the scorer raises
  \<^verbatim>\<open>ValueError\<close>.
\<close>

theorem nonempty_corpus_raises_counterexample:
  "[''a''] \<noteq> [] \<and> (1::nat) \<le> 2 \<and> get_top_ngrams [''a''] 2 = Inl ValueError"
  by (simp add: get_top_ngrams_def fit_transform_def analyze_def tokenize_def word_ngrams_def
      isspace_def)

text \<open>
  Claim C8, amended. Whenever some document of the corpus has at least one n-gram, the
  scorer returns a list whose length is the minimum of 10 and the number of distinct
  n-grams of the corpus, and whose weights are in non-increasing order.
\<close>

theorem ranked_result_length_sorted:
  "(\<exists>doc \<in> set docs. analyze n doc \<noteq> []) \<longrightarrow>
     (\<exists>res. get_top_ngrams docs n = Inr res
        \<and> length res = min 10 (card (\<Union>doc \<in> set docs. set (analyze n doc)))
        \<and> sorted_wrt (\<lambda>a b. b \<le> a) (map snd res))"
proof
  assume "\<exists>doc \<in> set docs. analyze n doc \<noteq> []"
  then have ne: "count_vocab n [] docs \<noteq> []" by (simp add: count_vocab_empty_iff)
  let ?res = "take 10 (sort_key (\<lambda>x. - snd x)
             (map (\<lambda>g. (g, normalized_tfidf_sum n docs g)) (count_vocab n [] docs)))"
  have r: "get_top_ngrams docs n = Inr ?res" using ne by (simp add: get_top_ngrams_eq)
  have l: "length ?res = min 10 (card (\<Union>doc \<in> set docs. set (analyze n doc)))"
    by (simp add: length_count_vocab min.commute)
  have s: "sorted_wrt (\<lambda>a b. b \<le> a) (map snd ?res)" by (rule sorted_desc_take)
  show "\<exists>res. get_top_ngrams docs n = Inr res
        \<and> length res = min 10 (card (\<Union>doc \<in> set docs. set (analyze n doc)))
        \<and> sorted_wrt (\<lambda>a b. b \<le> a) (map snd res)"
    using r l s by blast
qed

text \<open>The amended theorem of C8 on a record of twelve distinct tokens: ten are returned.\<close>

theorem ranked_result_length_sorted_witness:
  "analyze 1 ''a b c d e f g h i j k l'' \<noteq> []
   \<and> (\<exists>res. get_top_ngrams [''a b c d e f g h i j k l''] 1 = Inr res
        \<and> length res = 10 \<and> sorted_wrt (\<lambda>a b. b \<le> a) (map snd res))"
proof -
  let ?docs = "[''a b c d e f g h i j k l'']"
  have a: "analyze 1 ''a b c d e f g h i j k l'' \<noteq> []" by (simp add: twelve_tokens_analyze)
  then have h: "\<exists>doc \<in> set ?docs. analyze 1 doc \<noteq> []" by simp
  have c: "card (\<Union>doc \<in> set ?docs. set (analyze 1 doc)) = 12"
    by (simp add: twelve_tokens_analyze)
  obtain res where r: "get_top_ngrams ?docs 1 = Inr res"
      "length res = min 10 (card (\<Union>doc \<in> set ?docs. set (analyze 1 doc)))"
      "sorted_wrt (\<lambda>a b. b \<le> a) (map snd res)"
    using ranked_result_length_sorted[of ?docs 1] h by blast
  have "length res = 10" unfolding r(2) c by simp
  then show ?thesis using a r(1) r(3) by blast
qed

end
